theory Spec2Isabelle
  imports Main
begin

section \<open>Library functions called by the program\<close>

text \<open>
  The program (\<^verbatim>\<open>src/main.go\<close>) is a single \<^verbatim>\<open>main\<close> function built on the Go standard
  library. The library functions it calls are modelled here from their documented
  behaviour; everything from \<open>main_start\<close> onwards follows \<^verbatim>\<open>main.go\<close> line by line.
  A Go \<^verbatim>\<open>string\<close> is a sequence of bytes and \<^verbatim>\<open>len\<close> counts bytes, so paths are
  \<^typ>\<open>string\<close> (a list of 8-bit characters) and \<^const>\<open>length\<close> is Go's \<^verbatim>\<open>len\<close>.
\<close>

subsection \<open>strconv.Itoa and strconv.Atoi\<close>

definition digit_char :: "nat \<Rightarrow> char" where
  "digit_char d = ''0123456789'' ! d"

fun digits_of :: "nat \<Rightarrow> string" where
  "digits_of n =
     (if n < 10 then [digit_char n] else digits_of (n div 10) @ [digit_char (n mod 10)])"

declare digits_of.simps [simp del]

text \<open>\<^verbatim>\<open>strconv.Itoa\<close>: the decimal numeral of an integer, with a minus sign when negative.\<close>

definition Itoa :: "int \<Rightarrow> string" where
  "Itoa i = (if i < 0 then CHR ''-'' # digits_of (nat (- i)) else digits_of (nat i))"

definition is_digit :: "char \<Rightarrow> bool" where
  "is_digit c = (c \<in> set ''0123456789'')"

definition digit_val :: "char \<Rightarrow> int" where
  "digit_val c = int (of_char c) - 48"

text \<open>
  \<^verbatim>\<open>strconv.Atoi\<close> on a 64-bit platform: an optional sign followed by one or more decimal
  digits, and no value outside the range of \<^verbatim>\<open>int\<close>. \<open>None\<close> stands for a non-nil error
  (syntax or range).
\<close>

definition Atoi :: "string \<Rightarrow> int option" where
  "Atoi s =
     (let neg = (s \<noteq> [] \<and> hd s = CHR ''-'');
          ds = (if s \<noteq> [] \<and> (hd s = CHR ''-'' \<or> hd s = CHR ''+'') then tl s else s)
      in if ds = [] \<or> \<not> list_all is_digit ds then None
         else let n = foldl (\<lambda>n ch. n * 10 + digit_val ch) 0 ds;
                  v = (if neg then - n else n)
              in if v < - (2 ^ 63) \<or> 2 ^ 63 - 1 < v then None else Some v)"

subsection \<open>The file system as the program sees it\<close>

text \<open>
  A file-system entry, as \<^verbatim>\<open>os.Lstat\<close> and \<^verbatim>\<open>os.ReadDir\<close> report it. \<open>File\<close> is any entry
  that is neither a directory nor a symbolic link. A symbolic link carries what it points
  to (\<open>Dangling\<close> when the target cannot be resolved): only \<^verbatim>\<open>os.Stat\<close>, which follows
  links, ever looks at the target. A directory carries its entries in the order
  \<^verbatim>\<open>os.ReadDir\<close> returns them; \<open>BadDir err es\<close> is a directory whose listing fails with
  \<open>err\<close> after the entries \<open>es\<close> were read. The type \<open>'e\<close> is the type of operating-system
  errors.
\<close>

datatype 'e node =
    File
  | Symlink "'e node"
  | Dangling 'e
  | Dir "(string \<times> 'e node) list"
  | BadDir 'e "(string \<times> 'e node) list"

text \<open>\<^verbatim>\<open>fs.DirEntry.IsDir\<close>: the type of the entry itself; a symbolic link is not a directory.\<close>

fun IsDir :: "'e node \<Rightarrow> bool" where
  "IsDir (Dir es) = True"
| "IsDir (BadDir err es) = True"
| "IsDir File = False"
| "IsDir (Symlink t) = False"
| "IsDir (Dangling err) = False"

text \<open>\<^verbatim>\<open>os.Stat\<close> followed by \<^verbatim>\<open>FileInfo.IsDir\<close>: symbolic links are followed.\<close>

fun Stat :: "'e node \<Rightarrow> 'e + bool" where
  "Stat File = Inr False"
| "Stat (Symlink t) = Stat t"
| "Stat (Dangling err) = Inl err"
| "Stat (Dir es) = Inr True"
| "Stat (BadDir err es) = Inr True"

subsection \<open>os.Create in a directory that is listed later\<close>

text \<open>
  \<^verbatim>\<open>os.ReadDir\<close> returns the entries of a directory sorted by name, and Go compares
  strings byte by byte.
\<close>

fun name_less :: "string \<Rightarrow> string \<Rightarrow> bool" where
  "name_less [] [] = False"
| "name_less [] (y # ys) = True"
| "name_less (x # xs) [] = False"
| "name_less (x # xs) (y # ys) =
     ((of_char x :: nat) < of_char y \<or> (x = y \<and> name_less xs ys))"

text \<open>
  The entries of a directory after \<^verbatim>\<open>os.Create(name)\<close> has succeeded in it: an entry of
  that name stays what it was (a regular file is truncated, a link is followed; on a
  directory \<^verbatim>\<open>os.Create\<close> fails); otherwise a new regular file stands at its place in the
  order of the names.
\<close>

fun insert_entry :: "string \<Rightarrow> (string \<times> 'e node) list \<Rightarrow> (string \<times> 'e node) list" where
  "insert_entry name [] = [(name, File)]"
| "insert_entry name ((m, d) # es) =
     (if name_less name m then (name, File) # (m, d) # es
      else (m, d) # insert_entry name es)"

definition add_entry :: "string \<Rightarrow> (string \<times> 'e node) list \<Rightarrow> (string \<times> 'e node) list" where
  "add_entry name es = (case map_of es name of Some d \<Rightarrow> es | None \<Rightarrow> insert_entry name es)"

text \<open>
  A tree after \<^verbatim>\<open>os.Create(name)\<close> has succeeded in the directory reached from its root by
  the entry names \<open>ns\<close>, one directory after the other. Where the names do not lead to a
  directory that can be listed, what a listing of the tree shows has not changed.
\<close>

fun created_in :: "string \<Rightarrow> string list \<Rightarrow> 'e node \<Rightarrow> 'e node"
and created_below :: "string \<Rightarrow> string \<Rightarrow> string list \<Rightarrow> (string \<times> 'e node) list \<Rightarrow>
    (string \<times> 'e node) list"
where
  "created_in name [] (Dir es) = Dir (add_entry name es)"
| "created_in name (n # ns) (Dir es) = Dir (created_below name n ns es)"
| "created_in name ns File = File"
| "created_in name ns (Symlink t) = Symlink t"
| "created_in name ns (Dangling err) = Dangling err"
| "created_in name ns (BadDir err es) = BadDir err es"
| "created_below name n ns [] = []"
| "created_below name n ns ((m, d) # es) =
     (if m = n then (m, created_in name ns d) # es
      else (m, d) # created_below name n ns es)"

subsection \<open>filepath.WalkDir\<close>

text \<open>
  The callback receives the path, the entry (\<open>None\<close> for Go's \<^verbatim>\<open>nil\<close>), the error of the
  failed \<^verbatim>\<open>Lstat\<close> or \<^verbatim>\<open>ReadDir\<close> if any, and the state it may change; it returns its error
  and the new state. \<open>walkDir\<close> calls it on the entry, lists a directory, reports a failed
  listing by a second call, and walks the entries in order, stopping at the first error a
  call returns. The sentinel errors \<^verbatim>\<open>SkipDir\<close> and \<^verbatim>\<open>SkipAll\<close> are left out: the callback of
  this program only hands back errors it received from the operating system.
\<close>

type_synonym ('e, 's) WalkDirFunc =
  "string \<Rightarrow> 'e node option \<Rightarrow> 'e option \<Rightarrow> 's \<Rightarrow> 'e option \<times> 's"

fun walkDir :: "(string \<Rightarrow> string \<Rightarrow> string) \<Rightarrow> ('e, 's) WalkDirFunc \<Rightarrow> string \<Rightarrow>
    'e node \<Rightarrow> 's \<Rightarrow> 'e option \<times> 's"
and walkEntries :: "(string \<Rightarrow> string \<Rightarrow> string) \<Rightarrow> ('e, 's) WalkDirFunc \<Rightarrow> string \<Rightarrow>
    (string \<times> 'e node) list \<Rightarrow> 's \<Rightarrow> 'e option \<times> 's"
where
  "walkDir Join fn path d s =
     (case fn path (Some d) None s of
        (Some err, s1) \<Rightarrow> (Some err, s1)
      | (None, s1) \<Rightarrow>
          (case d of
             Dir dirs \<Rightarrow> walkEntries Join fn path dirs s1
           | BadDir err dirs \<Rightarrow>
               (case fn path (Some d) (Some err) s1 of
                  (Some err', s2) \<Rightarrow> (Some err', s2)
                | (None, s2) \<Rightarrow> walkEntries Join fn path dirs s2)
           | _ \<Rightarrow> (None, s1)))"
| "walkEntries Join fn path [] s = (None, s)"
| "walkEntries Join fn path ((name, d1) # rest) s =
     (case walkDir Join fn (Join path name) d1 s of
        (Some err, s1) \<Rightarrow> (Some err, s1)
      | (None, s1) \<Rightarrow> walkEntries Join fn path rest s1)"

declare walkDir.simps [simp del]

text \<open>\<^verbatim>\<open>WalkDir root fn\<close>: \<open>lstat\<close> is the result of \<^verbatim>\<open>os.Lstat(root)\<close>.\<close>

definition WalkDir :: "(string \<Rightarrow> string \<Rightarrow> string) \<Rightarrow> 'e + 'e node \<Rightarrow> string \<Rightarrow>
    ('e, 's) WalkDirFunc \<Rightarrow> 's \<Rightarrow> 'e option \<times> 's" where
  "WalkDir Join lstat root fn s =
     (case lstat of
        Inl err \<Rightarrow> fn root None (Some err) s
      | Inr d \<Rightarrow> walkDir Join fn root d s)"

subsection \<open>The Go runtime: allocating a slice\<close>

text \<open>
  \<^verbatim>\<open>make([][]string, 0, n)\<close> panics (\<^verbatim>\<open>makeslice: cap out of range\<close>) when \<open>n\<close> elements of
  24 bytes (a slice header on a 64-bit platform) need more than the runtime's
  \<^verbatim>\<open>maxAlloc\<close>, which is \<open>2 ^ 48\<close> bytes on 64-bit platforms. Running out of physical memory
  below that bound is not modelled.
\<close>

definition maxAlloc :: int where
  "maxAlloc = 2 ^ 48"

definition makeslice_ok :: "int \<Rightarrow> bool" where
  "makeslice_ok n = (0 \<le> n \<and> n * 24 \<le> maxAlloc)"

section \<open>The environment of a run\<close>

text \<open>
  Everything the operating system decides: what is found at a path when the program
  starts (\<open>Inl\<close> when the path cannot be accessed), where the working directory of the
  process lies below a path, how \<^verbatim>\<open>filepath.Join\<close> joins a directory path and an entry name,
  whether \<^verbatim>\<open>os.Create\<close> fails, whether writing the header to the buffered writer fails, and
  whether flushing the writer to the file fails, given the number of rows already in the
  file. \<open>cwd_at env p\<close> is \<open>Some ns\<close> when the working directory is reached from the
  directory at \<open>p\<close> by the entry names \<open>ns\<close>, one directory after the other (\<open>Some []\<close>
  when it is that directory itself), and \<open>None\<close> when it is not reached from there through
  directories. The file system changes during a run by what the program itself does to
  it, and by nothing else.
\<close>

record 'e os =
  lookup :: "string \<Rightarrow> 'e + 'e node"
  cwd_at :: "string \<Rightarrow> string list option"
  Join :: "string \<Rightarrow> string \<Rightarrow> string"
  create_error :: "'e option"
  header_error :: "'e option"
  flush_error :: "nat \<Rightarrow> 'e option"

text \<open>\<^verbatim>\<open>os.Stat(path)\<close> at line 36, before the program has changed anything.\<close>

definition os_Stat :: "'e os \<Rightarrow> string \<Rightarrow> 'e + bool" where
  "os_Stat env path = (case lookup env path of Inl err \<Rightarrow> Inl err | Inr d \<Rightarrow> Stat d)"

text \<open>
  Line 46 creates \<^verbatim>\<open>file_paths.csv\<close>, a relative name, so in the working directory; the
  walk of line 94 starts after that. \<open>after_Create env path\<close> is what \<^verbatim>\<open>os.Lstat\<close> and
  \<^verbatim>\<open>os.ReadDir\<close> find at and below a path from then on: what was there when the program
  started, with \<^verbatim>\<open>file_paths.csv\<close> among the entries of the working directory when that
  directory lies there.
\<close>

definition outputName :: string where
  "outputName = ''file_paths.csv''"

fun with_output :: "string list option \<Rightarrow> 'e node \<Rightarrow> 'e node" where
  "with_output None d = d"
| "with_output (Some ns) d = created_in outputName ns d"

definition after_Create :: "'e os \<Rightarrow> string \<Rightarrow> 'e + 'e node" where
  "after_Create env path =
     (case lookup env path of
        Inl err \<Rightarrow> Inl err
      | Inr d \<Rightarrow> Inr (with_output (cwd_at env path) d))"

section \<open>The program state\<close>

type_synonym row = "string list"

definition header :: row where
  "header = [''file_path'', ''path_length'']"

text \<open>
  The record that lines 110-111 make of a path:
  \<^verbatim>\<open>[]string{path, strconv.Itoa(len(path))}\<close>.
\<close>

definition record_of :: "string \<Rightarrow> row" where
  "record_of path = [path, Itoa (int (length path))]"

definition defaultBatchSize :: int where
  "defaultBatchSize = 100"

text \<open>Line 63: the capacity of \<^verbatim>\<open>pathChan\<close>.\<close>

definition chanCap :: nat where
  "chanCap = 1000"

datatype 'e message =
    Usage string
  | BadBatchSize
  | ErrAccess 'e
  | NotDirectory string
  | ErrCreate 'e
  | ErrHeader 'e
  | ErrBatch 'e
  | ErrFinalBatch 'e
  | ErrWalk 'e
  | PanicMakeslice

datatype out_line = Done int | Created

text \<open>
  Where the main goroutine stands, by the line it executes next: \<open>Alloc\<close> line 108,
  \<open>Recv\<close> line 109 (the head of the loop), \<open>Len\<close> line 110, \<open>Append\<close> line 111, \<open>Test\<close>
  line 113, \<open>WriteBatch\<close> line 114, \<open>Count\<close> line 119, \<open>Reset\<close> line 120, \<open>FinalTest\<close>
  line 125, \<open>FinalWrite\<close> line 126, \<open>FinalCount\<close> line 130, \<open>Stop\<close> lines 134-136,
  \<open>Report\<close> lines 138-144, \<open>Exited\<close> the process has ended. Where the scanner
  goroutine stands: \<open>Idle\<close> not started, \<open>Walking\<close> inside \<^verbatim>\<open>WalkDir\<close>, \<open>Closing\<close>
  \<^verbatim>\<open>WalkDir\<close> has returned and the deferred \<^verbatim>\<open>close\<close> is due, \<open>Finished\<close>.
\<close>

datatype cpc =
    Alloc | Recv | Len | Append | Test | WriteBatch | Count | Reset
  | FinalTest | FinalWrite | FinalCount | Stop | Report | Exited

datatype ppc = Idle | Walking | Closing | Finished

text \<open>
  The variables of \<^verbatim>\<open>main\<close> and what the process has done to the outside world.
  \<open>created\<close> and \<open>outputFile\<close> are \<^verbatim>\<open>file_paths.csv\<close> on disk (rows, in order), \<open>wbuf\<close> the rows
  held by the buffered CSV writer and not yet flushed. The file is kept as its sequence
  of records: the bytes \<^verbatim>\<open>encoding/csv\<close> writes (fields quoted where needed, one line for
  each record) are a function of the records, so equal records are equal bytes.
  \<open>to_send\<close> and \<open>walk_ret\<close> are the rest of the walk: the paths its callback has yet to
  send, and the error \<^verbatim>\<open>WalkDir\<close> will return. \<open>curPath\<close> and \<open>pathLength\<close> are the
  variables \<^verbatim>\<open>path\<close> and \<^verbatim>\<open>pathLength\<close> of the loop body (lines 109 and 110). \<open>display\<close>
  is the log of counts the spinner printed, \<open>writes\<close> the log of batches handed to
  successful \<^verbatim>\<open>WriteAll\<close> calls and \<open>popped\<close> the number of paths received from the
  channel: these three are history variables, read by no step.
\<close>

record 'e state =
  batchSize :: int
  created :: bool
  outputFile :: "row list"
  wbuf :: "row list"
  pathChan :: "string list"
  closed :: bool
  fileCount :: int
  scanErr :: "'e option"
  spinning :: bool
  display :: "int list"
  ppc :: ppc
  to_send :: "string list"
  walk_ret :: "'e option"
  pc :: cpc
  batch :: "row list"
  curPath :: string
  pathLength :: int
  popped :: nat
  writes :: "row list list"
  stderr :: "'e message list"
  stdout :: "out_line list"
  exit_code :: "nat option"

definition blank :: "'e state" where
  "blank = \<lparr> batchSize = defaultBatchSize, created = False, outputFile = [], wbuf = [],
     pathChan = [], closed = False, fileCount = 0, scanErr = None, spinning = False,
     display = [], ppc = Idle, to_send = [], walk_ret = None, pc = Alloc, batch = [],
     curPath = [], pathLength = 0, popped = 0, writes = [], stderr = [], stdout = [],
     exit_code = None \<rparr>"

text \<open>\<^verbatim>\<open>fmt.Fprintf(os.Stderr, ...); os.Exit(1)\<close>: deferred calls do not run.\<close>

definition die :: "'e message \<Rightarrow> 'e state \<Rightarrow> 'e state" where
  "die msg s = s\<lparr> stderr := stderr s @ [msg], exit_code := Some 1, pc := Exited \<rparr>"

text \<open>
  The deferred calls of lines 51 and 54, run when \<^verbatim>\<open>main\<close> returns or panics:
  \<^verbatim>\<open>writer.Flush()\<close>, whose error nobody reads, then \<^verbatim>\<open>outputFile.Close()\<close>.
\<close>

definition run_deferred :: "'e os \<Rightarrow> 'e state \<Rightarrow> 'e state" where
  "run_deferred env s =
     (if wbuf s = [] then s
      else case flush_error env (length (outputFile s)) of
             Some err \<Rightarrow> s
           | None \<Rightarrow> s\<lparr> outputFile := outputFile s @ wbuf s, wbuf := [] \<rparr>)"

text \<open>
  \<^verbatim>\<open>writer.WriteAll(records)\<close>: every record goes to the buffered writer, which is then
  flushed. On an error the model keeps the file as it was (how much of the failing batch
  reached the disk is not modelled; the program exits at once).
\<close>

definition WriteAll :: "'e os \<Rightarrow> row list \<Rightarrow> 'e state \<Rightarrow> 'e + 'e state" where
  "WriteAll env records s =
     (case flush_error env (length (outputFile s)) of
        Some err \<Rightarrow> Inl err
      | None \<Rightarrow> Inr (s\<lparr> outputFile := outputFile s @ wbuf s @ records, wbuf := [],
                       writes := writes s @ [records] \<rparr>))"

section \<open>main, up to the start of the goroutines\<close>

text \<open>
  Lines 94-103, the callback handed to \<^verbatim>\<open>WalkDir\<close>. Its state is the sequence of paths
  sent to \<^verbatim>\<open>pathChan\<close> so far. \<^verbatim>\<open>WalkDir\<close> passes a nil entry only together with an error,
  so the last case (a nil dereference in Go) is never reached.
\<close>

definition scan_cb :: "('e, string list) WalkDirFunc" where
  "scan_cb path d err sent =
     (case err of
        Some e \<Rightarrow> (Some e, sent)
      | None \<Rightarrow>
          (case d of
             Some n \<Rightarrow> if \<not> IsDir n then (None, sent @ [path]) else (None, sent)
           | None \<Rightarrow> (None, sent)))"

text \<open>
  Line 94: the whole walk, as its returned error and the paths it sends, in order. It
  meets the file system as line 46 has left it.
\<close>

definition scan :: "'e os \<Rightarrow> string \<Rightarrow> 'e option \<times> string list" where
  "scan env dirPath = WalkDir (Join env) (after_Create env dirPath) dirPath scan_cb []"

text \<open>Lines 25-33: \<open>None\<close> stands for the exit of line 30.\<close>

definition parse_batch_size :: "string list \<Rightarrow> int option" where
  "parse_batch_size rest =
     (case rest of
        [] \<Rightarrow> Some defaultBatchSize
      | a # _ \<Rightarrow>
          (case Atoi a of
             None \<Rightarrow> None
           | Some n \<Rightarrow> if n \<le> 0 then None else Some n))"

text \<open>
  Lines 18-104. \<open>prog\<close> is \<^verbatim>\<open>os.Args[0]\<close> and \<open>argv\<close> the arguments after it. The result
  is the state in which the spinner and the scanner have just been started and the main
  goroutine is about to run line 108, or the state in which the process has exited.
\<close>

definition main_start :: "'e os \<Rightarrow> string \<Rightarrow> string list \<Rightarrow> 'e state" where
  "main_start env prog argv =
     (case argv of
        [] \<Rightarrow> die (Usage prog) blank
      | dirPath # rest \<Rightarrow>
          (case parse_batch_size rest of
             None \<Rightarrow> die BadBatchSize blank
           | Some n \<Rightarrow>
               (case os_Stat env dirPath of
                  Inl err \<Rightarrow> die (ErrAccess err) blank
                | Inr isdir \<Rightarrow>
                    if \<not> isdir then die (NotDirectory dirPath) blank
                    else
                      (case create_error env of
                         Some err \<Rightarrow> die (ErrCreate err) blank
                       | None \<Rightarrow>
                           (case header_error env of
                              Some err \<Rightarrow> die (ErrHeader err) (blank\<lparr> created := True \<rparr>)
                            | None \<Rightarrow>
                                blank\<lparr> batchSize := n, created := True, wbuf := [header],
                                  spinning := True, ppc := Walking,
                                  to_send := snd (scan env dirPath),
                                  walk_ret := fst (scan env dirPath) \<rparr>)))))"

section \<open>The three goroutines, one atomic step at a time\<close>

text \<open>
  The scanner (lines 91-104). The walk reads the file system only, of which nothing but
  the content of \<^verbatim>\<open>file_paths.csv\<close> changes while it runs, and its callback does nothing
  but send, so what the scanner does is to send the paths of \<open>scan\<close> one after the
  other: \<open>to_send\<close> holds those it has not sent yet. A send blocks while the channel holds
  \<open>chanCap\<close> paths; when the walk has returned, its error is stored in \<^verbatim>\<open>scanErr\<close>, and the
  deferred \<^verbatim>\<open>close\<close> follows. A step of a blocked or finished goroutine, or of any
  goroutine after the process has exited, leaves the state as it is.
\<close>

definition step_producer :: "'e state \<Rightarrow> 'e state" where
  "step_producer s =
     (if exit_code s \<noteq> None then s
      else case ppc s of
        Walking \<Rightarrow>
          (case to_send s of
             path # ps \<Rightarrow>
               if length (pathChan s) < chanCap
               then s\<lparr> pathChan := pathChan s @ [path], to_send := ps \<rparr>
               else s
           | [] \<Rightarrow> s\<lparr> scanErr := walk_ret s, ppc := Closing \<rparr>)
      | Closing \<Rightarrow> s\<lparr> closed := True, ppc := Finished \<rparr>
      | _ \<Rightarrow> s)"

text \<open>The spinner (lines 71-87): one atomic load of \<^verbatim>\<open>fileCount\<close>, printed.\<close>

definition step_spinner :: "'e state \<Rightarrow> 'e state" where
  "step_spinner s =
     (if exit_code s = None \<and> spinning s then s\<lparr> display := display s @ [fileCount s] \<rparr>
      else s)"

text \<open>A panic of the main goroutine: the deferred calls run, the process exits with 2.\<close>

definition panic :: "'e os \<Rightarrow> 'e message \<Rightarrow> 'e state \<Rightarrow> 'e state" where
  "panic env msg s =
     (run_deferred env s)\<lparr> stderr := stderr s @ [msg], exit_code := Some 2, pc := Exited \<rparr>"

text \<open>
  The main goroutine (lines 108-144). From the allocation of line 108 to the count of
  line 130 every statement is a step of its own, so that the other goroutines can take
  their turns between any two of them: the receive of line 109 (which blocks on the empty
  channel until it is closed, and then leaves the loop), line 110, the append of line
  111, the test of line 113, \<^verbatim>\<open>WriteAll\<close>, the atomic add of line 119, the reset of line
  120, the test of line 125, the final \<^verbatim>\<open>WriteAll\<close> and the atomic add of line 130. A
  message on standard error and the \<^verbatim>\<open>os.Exit\<close> that follows it are one step. The step
  \<open>Stop\<close> is the send on \<^verbatim>\<open>done\<close>, which the spinner receives at its next turn and
  returns, and the wait for it. \<^verbatim>\<open>fileCount\<close> is an \<^verbatim>\<open>int64\<close> counting files, far from its
  bound, and is modelled as an integer.
\<close>

definition step_consumer :: "'e os \<Rightarrow> 'e state \<Rightarrow> 'e state" where
  "step_consumer env s =
     (case pc s of
        Alloc \<Rightarrow>
          if makeslice_ok (batchSize s) then s\<lparr> pc := Recv \<rparr> else panic env PanicMakeslice s
      | Recv \<Rightarrow>
          (case pathChan s of
             path # q \<Rightarrow> s\<lparr> pathChan := q, curPath := path, popped := popped s + 1, pc := Len \<rparr>
           | [] \<Rightarrow> if closed s then s\<lparr> pc := FinalTest \<rparr> else s)
      | Len \<Rightarrow> s\<lparr> pathLength := int (length (curPath s)), pc := Append \<rparr>
      | Append \<Rightarrow> s\<lparr> batch := batch s @ [[curPath s, Itoa (pathLength s)]], pc := Test \<rparr>
      | Test \<Rightarrow>
          s\<lparr> pc := (if int (length (batch s)) \<ge> batchSize s then WriteBatch else Recv) \<rparr>
      | WriteBatch \<Rightarrow>
          (case WriteAll env (batch s) s of
             Inl err \<Rightarrow> die (ErrBatch err) s
           | Inr s' \<Rightarrow> s'\<lparr> pc := Count \<rparr>)
      | Count \<Rightarrow> s\<lparr> fileCount := fileCount s + int (length (batch s)), pc := Reset \<rparr>
      | Reset \<Rightarrow> s\<lparr> batch := [], pc := Recv \<rparr>
      | FinalTest \<Rightarrow> s\<lparr> pc := (if length (batch s) > 0 then FinalWrite else Stop) \<rparr>
      | FinalWrite \<Rightarrow>
          (case WriteAll env (batch s) s of
             Inl err \<Rightarrow> die (ErrFinalBatch err) s
           | Inr s' \<Rightarrow> s'\<lparr> pc := FinalCount \<rparr>)
      | FinalCount \<Rightarrow>
          s\<lparr> fileCount := fileCount s + int (length (batch s)), pc := Stop \<rparr>
      | Stop \<Rightarrow> s\<lparr> spinning := False, pc := Report \<rparr>
      | Report \<Rightarrow>
          (case scanErr s of
             Some err \<Rightarrow> die (ErrWalk err) s
           | None \<Rightarrow>
               (run_deferred env (s\<lparr> stdout := stdout s @ [Done (fileCount s), Created] \<rparr>))
                 \<lparr> exit_code := Some 0, pc := Exited \<rparr>)
      | Exited \<Rightarrow> s)"

text \<open>
  A run is a schedule: the goroutine that takes each step. \<open>exec\<close> runs a schedule from
  a state; the states a run of the program can be in are \<open>exec env sched (main_start env
  prog argv)\<close> for all schedules.
\<close>

datatype actor = Producer | Consumer | Spinner

fun step :: "'e os \<Rightarrow> actor \<Rightarrow> 'e state \<Rightarrow> 'e state" where
  "step env Producer s = step_producer s"
| "step env Consumer s = step_consumer env s"
| "step env Spinner s = step_spinner s"

fun exec :: "'e os \<Rightarrow> actor list \<Rightarrow> 'e state \<Rightarrow> 'e state" where
  "exec env [] s = s"
| "exec env (a # sched) s = exec env sched (step env a s)"

text \<open>The fair schedule that lets the scanner and the main goroutine alternate.\<close>

fun round_robin :: "nat \<Rightarrow> actor list" where
  "round_robin 0 = []"
| "round_robin (Suc n) = Producer # Consumer # round_robin n"


section \<open>What a walk meets, independently of the code\<close>

text \<open>
  The definitions of this section do not follow the code: they say what a depth-first
  walk in directory-entry order meets, and are what the walk of the program is compared
  with. \<open>events\<close> lists, in that order, the non-directory entries of a tree (\<open>Found\<close>, with
  the path) and the directories that fail to list (\<open>Failed\<close>, with the error; nothing is
  known below such a directory). \<open>first_failure\<close> is the first error of such a list and
  \<open>found_before\<close> the paths met before it.
\<close>

datatype 'e event = Found string | Failed 'e

fun events :: "(string \<Rightarrow> string \<Rightarrow> string) \<Rightarrow> string \<Rightarrow> 'e node \<Rightarrow> 'e event list"
and events_entries :: "(string \<Rightarrow> string \<Rightarrow> string) \<Rightarrow> string \<Rightarrow> (string \<times> 'e node) list \<Rightarrow> 'e event list"
where
  "events J p File = [Found p]"
| "events J p (Symlink t) = [Found p]"
| "events J p (Dangling err) = [Found p]"
| "events J p (Dir es) = events_entries J p es"
| "events J p (BadDir err es) = [Failed err]"
| "events_entries J p [] = []"
| "events_entries J p ((name, d) # rest) = events J (J p name) d @ events_entries J p rest"

fun first_failure :: "'e event list \<Rightarrow> 'e option" where
  "first_failure [] = None"
| "first_failure (Found p # es) = first_failure es"
| "first_failure (Failed err # es) = Some err"

fun found_before :: "'e event list \<Rightarrow> string list" where
  "found_before [] = []"
| "found_before (Found p # es) = p # found_before es"
| "found_before (Failed err # es) = []"

text \<open>
  The non-directory entries of a tree, by their paths, in depth-first directory-entry
  order; a symbolic link is an entry of its own, whatever it points to.
\<close>

fun files_of :: "(string \<Rightarrow> string \<Rightarrow> string) \<Rightarrow> string \<Rightarrow> 'e node \<Rightarrow> string list"
and files_of_entries :: "(string \<Rightarrow> string \<Rightarrow> string) \<Rightarrow> string \<Rightarrow> (string \<times> 'e node) list \<Rightarrow> string list"
where
  "files_of J p File = [p]"
| "files_of J p (Symlink t) = [p]"
| "files_of J p (Dangling err) = [p]"
| "files_of J p (Dir es) = files_of_entries J p es"
| "files_of J p (BadDir err es) = files_of_entries J p es"
| "files_of_entries J p [] = []"
| "files_of_entries J p ((name, d) # rest) = files_of J (J p name) d @ files_of_entries J p rest"

text \<open>A tree all of whose directories can be listed (link targets are not part of it).\<close>

fun readable :: "'e node \<Rightarrow> bool"
and readable_entries :: "(string \<times> 'e node) list \<Rightarrow> bool"
where
  "readable File = True"
| "readable (Symlink t) = True"
| "readable (Dangling err) = True"
| "readable (Dir es) = readable_entries es"
| "readable (BadDir err es) = False"
| "readable_entries [] = True"
| "readable_entries ((name, d) # rest) = (readable d \<and> readable_entries rest)"

text \<open>
  The entry reached from an entry by entry names, one directory after the other;
  symbolic links are not followed.
\<close>

fun node_at :: "string list \<Rightarrow> 'e node \<Rightarrow> 'e node option" where
  "node_at [] d = Some d"
| "node_at (n # ns) (Dir es) = (case map_of es n of None \<Rightarrow> None | Some c \<Rightarrow> node_at ns c)"
| "node_at (n # ns) d = None"

text \<open>The same tree with \<open>f\<close> applied to the target of every symbolic link in it.\<close>

fun retarget :: "('e node \<Rightarrow> 'e node) \<Rightarrow> 'e node \<Rightarrow> 'e node"
and retarget_entries :: "('e node \<Rightarrow> 'e node) \<Rightarrow> (string \<times> 'e node) list \<Rightarrow> (string \<times> 'e node) list"
where
  "retarget f File = File"
| "retarget f (Symlink t) = Symlink (f t)"
| "retarget f (Dangling err) = Dangling err"
| "retarget f (Dir es) = Dir (retarget_entries f es)"
| "retarget f (BadDir err es) = BadDir err (retarget_entries f es)"
| "retarget_entries f [] = []"
| "retarget_entries f ((name, d) # rest) = (name, retarget f d) # retarget_entries f rest"

text \<open>
  A list cut into consecutive groups of \<open>n\<close> elements, the last group holding the
  remainder.
\<close>

fun chunks :: "nat \<Rightarrow> 'a list \<Rightarrow> 'a list list" where
  "chunks n xs = (if n = 0 \<or> xs = [] then [] else take n xs # chunks n (drop n xs))"

declare chunks.simps [simp del]

section \<open>Invariants of a run\<close>

text \<open>
  The predicates of this section describe the states of a run; they are used in proofs
  only. \<open>unflushed_at\<close> is the part of the batch not yet handed to \<^verbatim>\<open>WriteAll\<close>, \<open>held_at\<close>
  the record of a path received and not yet appended to the batch, and \<open>lag_at\<close> the
  number of records flushed and not yet counted, all three by the place of the main
  goroutine. \<open>all_full\<close>: every batch of a write log has \<open>B\<close> records; \<open>well_chunked\<close>: every
  batch but the last has, and the last is not empty and has at most \<open>B\<close>;
  \<open>whole_batches ws c\<close>: \<open>c\<close> is the total size of the first \<open>k\<close> batches of \<open>ws\<close>, for some
  \<open>k\<close>.
\<close>

fun unflushed_at :: "cpc \<Rightarrow> row list \<Rightarrow> row list" where
  "unflushed_at Alloc b = b"
| "unflushed_at Recv b = b"
| "unflushed_at Len b = b"
| "unflushed_at Append b = b"
| "unflushed_at Test b = b"
| "unflushed_at WriteBatch b = b"
| "unflushed_at FinalTest b = b"
| "unflushed_at FinalWrite b = b"
| "unflushed_at c b = []"

fun held_at :: "cpc \<Rightarrow> string \<Rightarrow> int \<Rightarrow> row list" where
  "held_at Len p l = [record_of p]"
| "held_at Append p l = [[p, Itoa l]]"
| "held_at c p l = []"

fun lag_at :: "cpc \<Rightarrow> row list \<Rightarrow> int" where
  "lag_at Count b = int (length b)"
| "lag_at FinalCount b = int (length b)"
| "lag_at c b = 0"

definition all_full :: "int \<Rightarrow> 'a list list \<Rightarrow> bool" where
  "all_full B ws = (\<forall>w \<in> set ws. int (length w) = B)"

definition well_chunked :: "int \<Rightarrow> 'a list list \<Rightarrow> bool" where
  "well_chunked B ws =
     (all_full B (butlast ws) \<and> (ws \<noteq> [] \<longrightarrow> last ws \<noteq> [] \<and> int (length (last ws)) \<le> B))"

definition whole_batches :: "'a list list \<Rightarrow> int \<Rightarrow> bool" where
  "whole_batches ws c = (\<exists>k \<le> length ws. c = int (length (concat (take k ws))))"

text \<open>
  What holds at each place of the main goroutine: the size of the batch (\<open>batch_ok\<close>), the
  channel closed and empty once the loop has ended (\<open>eos_ok\<close>), the shape of the write log
  (\<open>log_ok\<close>).
\<close>

fun batch_ok :: "int \<Rightarrow> cpc \<Rightarrow> row list \<Rightarrow> bool" where
  "batch_ok B Alloc b = (b = [])"
| "batch_ok B Recv b = (int (length b) < B)"
| "batch_ok B Len b = (int (length b) < B)"
| "batch_ok B Append b = (int (length b) < B)"
| "batch_ok B Test b = (b \<noteq> [] \<and> int (length b) \<le> B)"
| "batch_ok B WriteBatch b = (int (length b) = B)"
| "batch_ok B Count b = (int (length b) = B)"
| "batch_ok B Reset b = (int (length b) = B)"
| "batch_ok B FinalTest b = (int (length b) < B)"
| "batch_ok B FinalWrite b = (b \<noteq> [] \<and> int (length b) < B)"
| "batch_ok B FinalCount b = (b \<noteq> [] \<and> int (length b) < B)"
| "batch_ok B Stop b = (int (length b) < B)"
| "batch_ok B Report b = (int (length b) < B)"
| "batch_ok B c b = True"

fun eos_ok :: "cpc \<Rightarrow> bool \<Rightarrow> string list \<Rightarrow> bool" where
  "eos_ok FinalTest cl ch = (cl \<and> ch = [])"
| "eos_ok FinalWrite cl ch = (cl \<and> ch = [])"
| "eos_ok FinalCount cl ch = (cl \<and> ch = [])"
| "eos_ok Stop cl ch = (cl \<and> ch = [])"
| "eos_ok Report cl ch = (cl \<and> ch = [])"
| "eos_ok c cl ch = True"

fun log_ok :: "int \<Rightarrow> cpc \<Rightarrow> row list \<Rightarrow> row list list \<Rightarrow> bool" where
  "log_ok B Alloc b ws = (ws = [])"
| "log_ok B Recv b ws = all_full B ws"
| "log_ok B Len b ws = all_full B ws"
| "log_ok B Append b ws = all_full B ws"
| "log_ok B Test b ws = all_full B ws"
| "log_ok B WriteBatch b ws = all_full B ws"
| "log_ok B FinalTest b ws = all_full B ws"
| "log_ok B FinalWrite b ws = all_full B ws"
| "log_ok B Count b ws = (all_full B ws \<and> ws \<noteq> [] \<and> last ws = b)"
| "log_ok B Reset b ws = (all_full B ws \<and> ws \<noteq> [] \<and> last ws = b)"
| "log_ok B FinalCount b ws = (well_chunked B ws \<and> ws \<noteq> [] \<and> last ws = b)"
| "log_ok B c b ws = well_chunked B ws"

text \<open>
  A running process, where \<open>S\<close> is the sequence of paths the walk sends, \<open>R\<close> the error it
  returns and \<open>B\<close> the batch size: nothing printed yet and the local variables unchanged
  (\<open>ctl\<close>); the paths in the channel and still to be sent are the not yet received rest of
  \<open>S\<close> (\<open>chan\<close>); the records flushed, those in the batch and the one of a path just
  received are the records of the paths received, the file and the writer's buffer hold the header and the flushed records, and
  the counter lags by \<open>lag_at\<close> (\<open>data\<close>); the batch and the write log have their shape
  (\<open>shape\<close>); every printed count is a total of whole batches, at most the counter (\<open>disp\<close>).
\<close>

definition ctl :: "'e option \<Rightarrow> int \<Rightarrow> 'e state \<Rightarrow> bool" where
  "ctl R B s =
     (pc s \<noteq> Exited \<and> exit_code s = None \<and> stderr s = [] \<and> stdout s = [] \<and> created s \<and>
      batchSize s = B \<and> walk_ret s = R \<and> 0 < B \<and>
      (spinning s \<longrightarrow> pc s \<noteq> Report) \<and> (pc s \<noteq> Report \<longrightarrow> spinning s))"

definition chan :: "string list \<Rightarrow> 'e option \<Rightarrow> 'e state \<Rightarrow> bool" where
  "chan S R s =
     (ppc s \<noteq> Idle \<and> (closed s \<longrightarrow> ppc s = Finished) \<and>
      (ppc s = Finished \<longrightarrow> closed s) \<and>
      (ppc s \<noteq> Walking \<longrightarrow> to_send s = [] \<and> scanErr s = R) \<and>
      length (pathChan s) \<le> chanCap \<and> popped s \<le> length S \<and>
      pathChan s @ to_send s = drop (popped s) S \<and>
      eos_ok (pc s) (closed s) (pathChan s))"

definition data :: "string list \<Rightarrow> 'e state \<Rightarrow> bool" where
  "data S s =
     (concat (writes s) @ unflushed_at (pc s) (batch s) @
        held_at (pc s) (curPath s) (pathLength s) = map record_of (take (popped s) S) \<and>
      outputFile s = (if writes s = [] then [] else header # concat (writes s)) \<and>
      wbuf s = (if writes s = [] then [header] else []) \<and>
      fileCount s + lag_at (pc s) (batch s) = int (length (concat (writes s))))"

definition shape :: "int \<Rightarrow> 'e state \<Rightarrow> bool" where
  "shape B s = (batch_ok B (pc s) (batch s) \<and> log_ok B (pc s) (batch s) (writes s))"

definition disp :: "'e state \<Rightarrow> bool" where
  "disp s = (\<forall>c \<in> set (display s). whole_batches (writes s) c \<and> c \<le> fileCount s)"

definition running :: "string list \<Rightarrow> 'e option \<Rightarrow> int \<Rightarrow> 'e state \<Rightarrow> bool" where
  "running S R B s = (ctl R B s \<and> chan S R s \<and> data S s \<and> shape B s \<and> disp s)"

text \<open>
  An ended process (\<open>exited\<close>) and the four ways it can have ended after the goroutines
  were started: normally (\<open>ok_exit\<close>), on the error of the walk (\<open>walk_exit\<close>), on a failed
  write (\<open>write_exit\<close>), on the panic of line 108 (\<open>panic_exit\<close>). \<open>reach\<close> holds of every
  state of a run.
\<close>

definition exited :: "'e option \<Rightarrow> int \<Rightarrow> 'e state \<Rightarrow> bool" where
  "exited R B s =
     (pc s = Exited \<and> exit_code s \<noteq> None \<and> created s \<and> batchSize s = B \<and> walk_ret s = R \<and>
      0 < B \<and> well_chunked B (writes s) \<and>
      outputFile s @ wbuf s = header # concat (writes s) \<and>
      (wbuf s = [] \<or> wbuf s = [header] \<and> outputFile s = []) \<and>
      fileCount s = int (length (concat (writes s))) \<and> disp s)"

definition ok_exit :: "'e os \<Rightarrow> string list \<Rightarrow> 'e state \<Rightarrow> bool" where
  "ok_exit env S s =
     (exit_code s = Some 0 \<and> walk_ret s = None \<and> scanErr s = None \<and> stderr s = [] \<and>
      stdout s = [Done (int (length S)), Created] \<and> concat (writes s) = map record_of S \<and>
      closed s \<and> pathChan s = [] \<and> to_send s = [] \<and> popped s = length S \<and> \<not> spinning s \<and>
      (wbuf s \<noteq> [] \<longrightarrow> S = [] \<and> flush_error env 0 \<noteq> None))"

definition walk_exit :: "string list \<Rightarrow> 'e state \<Rightarrow> bool" where
  "walk_exit S s =
     (exit_code s = Some 1 \<and> (\<exists>e. walk_ret s = Some e \<and> stderr s = [ErrWalk e]) \<and>
      scanErr s = walk_ret s \<and> stdout s = [] \<and> concat (writes s) = map record_of S \<and>
      closed s \<and> pathChan s = [] \<and> to_send s = [] \<and> popped s = length S \<and> \<not> spinning s \<and>
      wbuf s = (if S = [] then [header] else []))"

definition write_exit :: "'e os \<Rightarrow> string list \<Rightarrow> 'e state \<Rightarrow> bool" where
  "write_exit env S s =
     (exit_code s = Some 1 \<and>
      (\<exists>e. (stderr s = [ErrBatch e] \<or> stderr s = [ErrFinalBatch e]) \<and>
           flush_error env (length (outputFile s)) = Some e) \<and>
      stdout s = [] \<and> popped s \<le> length S \<and> batch s \<noteq> [] \<and>
      concat (writes s) @ batch s = map record_of (take (popped s) S))"

definition panic_exit :: "'e state \<Rightarrow> bool" where
  "panic_exit s =
     (exit_code s = Some 2 \<and> stderr s = [PanicMakeslice] \<and> stdout s = [] \<and>
      \<not> makeslice_ok (batchSize s) \<and> writes s = [])"

definition final :: "'e os \<Rightarrow> string list \<Rightarrow> 'e option \<Rightarrow> int \<Rightarrow> 'e state \<Rightarrow> bool" where
  "final env S R B s =
     (exited R B s \<and> (ok_exit env S s \<or> walk_exit S s \<or> write_exit env S s \<or> panic_exit s))"

definition reach :: "'e os \<Rightarrow> string list \<Rightarrow> 'e option \<Rightarrow> int \<Rightarrow> 'e state \<Rightarrow> bool" where
  "reach env S R B s = (running S R B s \<or> final env S R B s)"

text \<open>The state \<open>main_start\<close> returns when nothing fails before line 108.\<close>

definition started :: "'e os \<Rightarrow> string \<Rightarrow> int \<Rightarrow> 'e state" where
  "started env dirPath B =
     blank\<lparr> batchSize := B, created := True, wbuf := [header], spinning := True,
       ppc := Walking, to_send := snd (scan env dirPath), walk_ret := fst (scan env dirPath) \<rparr>"

section \<open>Progress\<close>

text \<open>
  \<open>mu\<close> bounds the number of steps the scanner and the main goroutine can still take:
  every step of theirs that changes the state lowers it. \<open>rounds\<close> counts the rounds of a
  schedule, a round being over as soon as both the scanner and the main goroutine have
  had a turn. \<open>enP\<close>: the scanner can take a step; \<open>blockedC\<close>: the main goroutine cannot.
\<close>

fun rank :: "cpc \<Rightarrow> nat" where
  "rank Exited = 0"
| "rank Report = 1"
| "rank Stop = 2"
| "rank FinalCount = 3"
| "rank FinalWrite = 4"
| "rank FinalTest = 5"
| "rank Recv = 6"
| "rank Reset = 7"
| "rank Count = 8"
| "rank WriteBatch = 9"
| "rank Test = 10"
| "rank Append = 11"
| "rank Len = 12"
| "rank Alloc = 7"

fun prank :: "ppc \<Rightarrow> nat" where
  "prank Walking = 2"
| "prank Closing = 1"
| "prank Finished = 0"
| "prank Idle = 0"

definition mu :: "'e state \<Rightarrow> nat" where
  "mu s =
     (if pc s = Exited then 0
      else rank (pc s) + 7 * length (pathChan s) + 8 * length (to_send s) + prank (ppc s))"

fun rounds_from :: "bool \<Rightarrow> bool \<Rightarrow> actor list \<Rightarrow> nat" where
  "rounds_from p c [] = 0"
| "rounds_from p c (a # sched) =
     (if (p \<or> a = Producer) \<and> (c \<or> a = Consumer) then Suc (rounds_from False False sched)
      else rounds_from (p \<or> a = Producer) (c \<or> a = Consumer) sched)"

definition rounds :: "actor list \<Rightarrow> nat" where
  "rounds sched = rounds_from False False sched"

definition enP :: "'e state \<Rightarrow> bool" where
  "enP s =
     (exit_code s = None \<and>
      (ppc s = Walking \<and> (to_send s = [] \<or> length (pathChan s) < chanCap) \<or> ppc s = Closing))"

definition blockedC :: "'e state \<Rightarrow> bool" where
  "blockedC s = (pc s = Exited \<or> pc s = Recv \<and> pathChan s = [] \<and> \<not> closed s)"

section \<open>Example environments and schedules\<close>

text \<open>
  A directory \<^verbatim>\<open>/tmp/a\<close> with a subdirectory, a symbolic link to a directory and a file,
  on a system where nothing fails; the working directory is somewhere else.
\<close>

definition tree_a :: "string node" where
  "tree_a = Dir [(''b'', Dir [(''y.txt'', File)]), (''l'', Symlink (Dir [(''z'', File)])),
     (''x.txt'', File)]"

definition env_a :: "string os" where
  "env_a = \<lparr> lookup = (\<lambda>p. if p = ''/tmp/a'' then Inr tree_a else Inl ''ENOENT''),
     cwd_at = (\<lambda>p. None), Join = (\<lambda>d n. d @ ''/'' @ n), create_error = None,
     header_error = None, flush_error = (\<lambda>n. None) \<rparr>"



text \<open>
  A directory \<^verbatim>\<open>/srv\<close> whose second entry is a directory that cannot be listed; the
  working directory is somewhere else.
\<close>

definition tree_bad :: "string node" where
  "tree_bad = Dir [(''a.txt'', File), (''locked'', BadDir ''EACCES'' []), (''z.txt'', File)]"

definition env_bad :: "string os" where
  "env_bad = \<lparr> lookup = (\<lambda>p. if p = ''/srv'' then Inr tree_bad else Inl ''ENOENT''),
     cwd_at = (\<lambda>p. None), Join = (\<lambda>d n. d @ ''/'' @ n), create_error = None,
     header_error = None, flush_error = (\<lambda>n. None) \<rparr>"

text \<open>
  Four schedules. \<open>sched_received\<close>: the scanner sends a path, the main goroutine
  allocates the batch and receives the path (lines 108 and 109). \<open>sched_full\<close>: the
  scanner sends two paths, the main goroutine allocates the batch and takes both paths
  through lines 109-113. \<open>sched_flushed\<close>: after that the main goroutine flushes (line
  114) and the spinner prints. \<open>sched_counted\<close>: after the flush the main goroutine
  updates the counter (line 119).
\<close>

definition sched_received :: "actor list" where
  "sched_received = [Producer, Consumer, Consumer]"

definition sched_full :: "actor list" where
  "sched_full = [Producer, Producer] @ replicate 9 Consumer"

definition sched_flushed :: "actor list" where
  "sched_flushed = sched_full @ [Consumer, Spinner]"

definition sched_counted :: "actor list" where
  "sched_counted = sched_full @ [Consumer, Consumer]"

text \<open>The path \<^verbatim>\<open>/tmp/ln\<close> is a symbolic link to the directory of \<open>tree_a\<close>.\<close>

definition env_link :: "string os" where
  "env_link = \<lparr> lookup = (\<lambda>p. if p = ''/tmp/ln'' then Inr (Symlink tree_a) else Inl ''ENOENT''),
     cwd_at = (\<lambda>p. None), Join = (\<lambda>d n. d @ ''/'' @ n), create_error = None,
     header_error = None, flush_error = (\<lambda>n. None) \<rparr>"

section \<open>The library functions\<close>

lemma first_failure_append:
  "first_failure (xs @ ys) = (case first_failure xs of Some e \<Rightarrow> Some e | None \<Rightarrow> first_failure ys)"
  by (induction xs rule: first_failure.induct) auto

lemma found_before_append:
  "found_before (xs @ ys) =
     (if first_failure xs = None then found_before xs @ found_before ys else found_before xs)"
  by (induction xs rule: found_before.induct) auto

lemma walkDir_scan_cb:
  "walkDir J scan_cb p (d :: 'e node) sent =
     (first_failure (events J p d), sent @ found_before (events J p d))"
  "walkEntries J scan_cb p (es :: (string \<times> 'e node) list) sent =
     (first_failure (events_entries J p es), sent @ found_before (events_entries J p es))"
proof (induction J p d and J p es arbitrary: sent and sent rule: events_events_entries.induct)
  case (4 J p es)
  then show ?case by (simp add: walkDir.simps scan_cb_def)
next
  case (7 J p name d rest)
  then show ?case
    by (simp add: first_failure_append found_before_append split: option.splits)
qed (simp_all add: walkDir.simps scan_cb_def)

lemma readable_events:
  "readable (d :: 'e node) \<Longrightarrow> first_failure (events J p d) = None \<and> found_before (events J p d) = files_of J p d"
  "readable_entries (es :: (string \<times> 'e node) list) \<Longrightarrow> first_failure (events_entries J p es) = None \<and> found_before (events_entries J p es) = files_of_entries J p es"
  by (induction J p d and J p es rule: events_events_entries.induct)
     (simp_all add: first_failure_append found_before_append)

lemma failure_unreadable:
  "first_failure (events J p (d :: 'e node)) = None \<Longrightarrow> readable d"
  "first_failure (events_entries J p (es :: (string \<times> 'e node) list)) = None \<Longrightarrow> readable_entries es"
  by (induction J p d and J p es rule: events_events_entries.induct)
     (simp_all add: first_failure_append split: option.splits)

lemma events_retarget:
  "events J p (retarget f (d :: 'e node)) = events J p d"
  "events_entries J p (retarget_entries f (es :: (string \<times> 'e node) list)) = events_entries J p es"
  by (induction J p d and J p es rule: events_events_entries.induct) simp_all

lemma digit_char_facts:
  assumes "d < 10"
  shows "is_digit (digit_char d)" "digit_val (digit_char d) = int d"
    "digit_char d \<noteq> CHR ''-''" "digit_char d \<noteq> CHR ''+''"
proof -
  from assms have "d = 0 \<or> d = 1 \<or> d = 2 \<or> d = 3 \<or> d = 4 \<or> d = 5 \<or> d = 6 \<or> d = 7 \<or>
      d = 8 \<or> d = 9"
    by arith
  then show "is_digit (digit_char d)" "digit_val (digit_char d) = int d"
    "digit_char d \<noteq> CHR ''-''" "digit_char d \<noteq> CHR ''+''"
    by (auto simp: digit_char_def is_digit_def digit_val_def)
qed

lemma digits_of_facts:
  "digits_of n \<noteq> [] \<and> list_all is_digit (digits_of n) \<and>
   foldl (\<lambda>n ch. n * 10 + digit_val ch) 0 (digits_of n) = int n"
proof (induction n rule: digits_of.induct)
  case (1 n)
  show ?case
  proof (cases "n < 10")
    case True
    with digit_char_facts [OF True] show ?thesis by (simp add: digits_of.simps [of n])
  next
    case False
    have m: "n mod 10 < 10" by simp
    from 1 [OF False] digit_char_facts(1,2) [OF m] False show ?thesis
      by (simp add: digits_of.simps [of n] zmod_int zdiv_int)
  qed
qed

lemma hd_digits_of: "is_digit (hd (digits_of n))"
  using digits_of_facts [of n] by (cases "digits_of n") simp_all

lemma Atoi_Itoa:
  assumes "0 \<le> i" "i < 2 ^ 63"
  shows "Atoi (Itoa i) = Some i"
proof -
  let ?ds = "digits_of (nat i)"
  note f = digits_of_facts [of "nat i"]
  from hd_digits_of [of "nat i"] have h: "hd ?ds \<noteq> CHR ''-''" "hd ?ds \<noteq> CHR ''+''"
    by (auto simp: is_digit_def)
  from assms f h show ?thesis by (simp add: Atoi_def Itoa_def Let_def)
qed

section \<open>The invariant is kept by every step\<close>

lemma step_producer_cases [case_names idle push return close]:
  obtains "step_producer s = s"
  | path ps where "exit_code s = None" "ppc s = Walking" "to_send s = path # ps"
      "length (pathChan s) < chanCap"
      "step_producer s = s\<lparr> pathChan := pathChan s @ [path], to_send := ps \<rparr>"
  | "exit_code s = None" "ppc s = Walking" "to_send s = []"
      "step_producer s = s\<lparr> scanErr := walk_ret s, ppc := Closing \<rparr>"
  | "exit_code s = None" "ppc s = Closing"
      "step_producer s = s\<lparr> closed := True, ppc := Finished \<rparr>"
proof (cases "exit_code s = None")
  case False
  then have "step_producer s = s" by (simp add: step_producer_def)
  then show ?thesis by (rule that(1))
next
  case ex: True
  show ?thesis
  proof (cases "ppc s")
    case Idle
    with ex have "step_producer s = s" by (simp add: step_producer_def)
    then show ?thesis by (rule that(1))
  next
    case Finished
    with ex have "step_producer s = s" by (simp add: step_producer_def)
    then show ?thesis by (rule that(1))
  next
    case Closing
    with ex have "step_producer s = s\<lparr> closed := True, ppc := Finished \<rparr>"
      by (simp add: step_producer_def)
    with ex Closing show ?thesis by (rule that(4))
  next
    case Walking
    show ?thesis
    proof (cases "to_send s")
      case Nil
      with ex Walking have "step_producer s = s\<lparr> scanErr := walk_ret s, ppc := Closing \<rparr>"
        by (simp add: step_producer_def)
      with ex Walking Nil show ?thesis by (rule that(3))
    next
      case (Cons path ps)
      show ?thesis
      proof (cases "length (pathChan s) < chanCap")
        case True
        with ex Walking Cons
        have "step_producer s = s\<lparr> pathChan := pathChan s @ [path], to_send := ps \<rparr>"
          by (simp add: step_producer_def)
        with ex Walking Cons True show ?thesis by (rule that(2))
      next
        case False
        with ex Walking Cons have "step_producer s = s" by (simp add: step_producer_def)
        then show ?thesis by (rule that(1))
      qed
    qed
  qed
qed

lemma eos_ok_open: "\<not> cl \<Longrightarrow> eos_ok c cl ch \<Longrightarrow> eos_ok c cl' ch'"
  by (cases c) simp_all

lemma eos_ok_close: "eos_ok c cl ch \<Longrightarrow> eos_ok c True ch"
  by (cases c) simp_all

lemma runningD:
  assumes "running S R B s"
  shows "ctl R B s" "chan S R s" "data S s" "shape B s" "disp s"
  using assms unfolding running_def by blast+

lemma runningI: "ctl R B s \<Longrightarrow> chan S R s \<Longrightarrow> data S s \<Longrightarrow> shape B s \<Longrightarrow> disp s \<Longrightarrow> running S R B s"
  unfolding running_def by blast

lemma ctl_frame:
  assumes "pc s' = pc s" "exit_code s' = exit_code s" "stderr s' = stderr s"
    "stdout s' = stdout s" "created s' = created s" "batchSize s' = batchSize s"
    "walk_ret s' = walk_ret s" "spinning s' = spinning s"
  shows "ctl R B s' = ctl R B s"
  unfolding ctl_def assms by (rule refl)

lemma chan_frame:
  assumes "ppc s' = ppc s" "closed s' = closed s" "to_send s' = to_send s"
    "scanErr s' = scanErr s" "pathChan s' = pathChan s" "popped s' = popped s" "pc s' = pc s"
  shows "chan S R s' = chan S R s"
  unfolding chan_def assms by (rule refl)

lemma data_frame:
  assumes "writes s' = writes s" "pc s' = pc s" "batch s' = batch s" "popped s' = popped s"
    "outputFile s' = outputFile s" "wbuf s' = wbuf s" "fileCount s' = fileCount s"
    "curPath s' = curPath s" "pathLength s' = pathLength s"
  shows "data S s' = data S s"
  unfolding data_def assms by (rule refl)

lemma shape_frame:
  assumes "writes s' = writes s" "pc s' = pc s" "batch s' = batch s"
  shows "shape B s' = shape B s"
  unfolding shape_def assms by (rule refl)

lemma disp_frame:
  assumes "writes s' = writes s" "display s' = display s" "fileCount s' = fileCount s"
  shows "disp s' = disp s"
  unfolding disp_def assms by (rule refl)

lemma ctl_producer: "ctl R B s \<Longrightarrow> ctl R B (step_producer s)"
  by (cases s rule: step_producer_cases) (simp_all add: ctl_def)

lemma data_producer: "data S s \<Longrightarrow> data S (step_producer s)"
  by (cases s rule: step_producer_cases) (simp_all add: data_def)

lemma shape_producer: "shape B s \<Longrightarrow> shape B (step_producer s)"
  by (cases s rule: step_producer_cases) (simp_all add: shape_def)

lemma disp_producer: "disp s \<Longrightarrow> disp (step_producer s)"
  by (cases s rule: step_producer_cases) (simp_all add: disp_def)

lemma chan_producer:
  assumes "chan S R s" "walk_ret s = R"
  shows "chan S R (step_producer s)"
proof (cases s rule: step_producer_cases)
  case idle
  with assms show ?thesis by simp
next
  case (push path ps)
  from assms have f: "ppc s \<noteq> Idle" "closed s \<longrightarrow> ppc s = Finished"
      "popped s \<le> length S" "pathChan s @ to_send s = drop (popped s) S"
      "eos_ok (pc s) (closed s) (pathChan s)"
    unfolding chan_def by blast+
  from f(2) push(2) have nc: "\<not> closed s" by auto
  have e: "eos_ok (pc s) (closed s) (pathChan s @ [path])" by (rule eos_ok_open [OF nc f(5)])
  from f(4) push(3) have "(pathChan s @ [path]) @ ps = drop (popped s) S" by simp
  with push f e nc show ?thesis unfolding chan_def by simp
next
  case return
  from assms have f: "ppc s \<noteq> Idle" "closed s \<longrightarrow> ppc s = Finished"
      "popped s \<le> length S" "pathChan s @ to_send s = drop (popped s) S"
      "eos_ok (pc s) (closed s) (pathChan s)" "length (pathChan s) \<le> chanCap"
    unfolding chan_def by blast+
  from f(2) return(2) have nc: "\<not> closed s" by auto
  with return f assms(2) show ?thesis unfolding chan_def by simp
next
  case close
  from assms have f: "ppc s \<noteq> Idle" "closed s \<longrightarrow> ppc s = Finished"
      "popped s \<le> length S" "pathChan s @ to_send s = drop (popped s) S"
      "eos_ok (pc s) (closed s) (pathChan s)" "length (pathChan s) \<le> chanCap"
      "ppc s \<noteq> Walking \<longrightarrow> to_send s = [] \<and> scanErr s = R"
    unfolding chan_def by blast+
  have e: "eos_ok (pc s) True (pathChan s)" by (rule eos_ok_close [OF f(5)])
  with close f show ?thesis unfolding chan_def by simp
qed

lemma running_producer:
  assumes "running S R B s"
  shows "running S R B (step_producer s)"
proof -
  note r = runningD [OF assms]
  from r(1) have w: "walk_ret s = R" unfolding ctl_def by blast
  show ?thesis
    by (rule runningI [OF ctl_producer [OF r(1)] chan_producer [OF r(2) w]
          data_producer [OF r(3)] shape_producer [OF r(4)] disp_producer [OF r(5)]])
qed

lemma whole_batches_all: "whole_batches ws (int (length (concat ws)))"
  unfolding whole_batches_def by (intro exI [of _ "length ws"]) simp

lemma whole_batches_butlast:
  "ws \<noteq> [] \<Longrightarrow> whole_batches ws (int (length (concat (butlast ws))))"
  unfolding whole_batches_def
  by (intro exI [of _ "length ws - 1"]) (simp add: butlast_conv_take)

lemma whole_batches_append: "whole_batches ws c \<Longrightarrow> whole_batches (ws @ [b]) c"
  unfolding whole_batches_def by (metis le_SucI length_append_singleton take_append diff_is_0_eq' take0 append_Nil2)

lemma concat_butlast_last: "ws \<noteq> [] \<Longrightarrow> concat ws = concat (butlast ws) @ last ws"
  by (induction ws) auto

lemma count_whole_batches:
  assumes "data S s" "shape B s"
  shows "whole_batches (writes s) (fileCount s)"
proof (cases "pc s = Count \<or> pc s = FinalCount")
  case True
  with assms(2) have w: "writes s \<noteq> []" "last (writes s) = batch s"
    unfolding shape_def by auto
  from True assms(1) have "fileCount s + int (length (batch s)) = int (length (concat (writes s)))"
    unfolding data_def by auto
  with concat_butlast_last [OF w(1)] w(2)
  have "fileCount s = int (length (concat (butlast (writes s))))" by simp
  with whole_batches_butlast [OF w(1)] show ?thesis by simp
next
  case False
  then have "lag_at (pc s) (batch s) = 0" by (cases "pc s") simp_all
  with assms(1) have "fileCount s = int (length (concat (writes s)))"
    unfolding data_def by simp
  with whole_batches_all show ?thesis by metis
qed

lemma running_spinner:
  assumes "running S R B s"
  shows "running S R B (step_spinner s)"
proof (cases "exit_code s = None \<and> spinning s")
  case False
  then have "step_spinner s = s" by (simp add: step_spinner_def)
  with assms show ?thesis by simp
next
  case True
  then have eq: "step_spinner s = s\<lparr> display := display s @ [fileCount s] \<rparr>"
    by (simp add: step_spinner_def)
  note r = runningD [OF assms]
  have "ctl R B (step_spinner s) = ctl R B s" by (rule ctl_frame) (simp_all add: eq)
  with r(1) have "ctl R B (step_spinner s)" by simp
  moreover have "chan S R (step_spinner s) = chan S R s" by (rule chan_frame) (simp_all add: eq)
  with r(2) have "chan S R (step_spinner s)" by simp
  moreover have "data S (step_spinner s) = data S s" by (rule data_frame) (simp_all add: eq)
  with r(3) have "data S (step_spinner s)" by simp
  moreover have "shape B (step_spinner s) = shape B s" by (rule shape_frame) (simp_all add: eq)
  with r(4) have "shape B (step_spinner s)" by simp
  moreover have "disp (step_spinner s)"
    using r(5) count_whole_batches [OF r(3) r(4)] by (simp add: eq disp_def)
  ultimately show ?thesis by (rule runningI)
qed

lemma all_full_Nil [simp]: "all_full B []"
  by (simp add: all_full_def)

lemma all_full_snoc: "all_full B ws \<Longrightarrow> int (length b) = B \<Longrightarrow> all_full B (ws @ [b])"
  by (simp add: all_full_def)

lemma all_full_well_chunked: "all_full B ws \<Longrightarrow> 0 < B \<Longrightarrow> well_chunked B ws"
  unfolding well_chunked_def all_full_def
  by (auto dest: in_set_butlastD) (metis last_in_set length_0_conv of_nat_0 less_irrefl)

lemma well_chunked_nonempty:
  assumes "well_chunked B ws" "0 < B" "w \<in> set ws"
  shows "w \<noteq> []" "int (length w) \<le> B"
proof -
  from assms(3) have ne: "ws \<noteq> []" by auto
  then have "ws = butlast ws @ [last ws]" by simp
  with assms(3) have "w \<in> set (butlast ws) \<or> w = last ws"
    by (metis Un_iff insert_iff list.set(1) list.simps(15) set_append empty_iff)
  then have "(w \<noteq> []) \<and> int (length w) \<le> B"
  proof
    assume "w \<in> set (butlast ws)"
    with assms(1) have "int (length w) = B" by (simp add: well_chunked_def all_full_def)
    with assms(2) show ?thesis by auto
  next
    assume "w = last ws"
    with assms(1) ne show ?thesis by (simp add: well_chunked_def)
  qed
  then show "w \<noteq> []" "int (length w) \<le> B" by simp_all
qed

lemma well_chunked_concat_Nil:
  assumes "well_chunked B ws" "0 < B" "concat ws = []"
  shows "ws = []"
proof (rule ccontr)
  assume "ws \<noteq> []"
  then obtain w where w: "w \<in> set ws" by (cases ws) auto
  from well_chunked_nonempty(1) [OF assms(1,2) w] w assms(3) show False by auto
qed

lemma well_chunked_snoc:
  "all_full B ws \<Longrightarrow> b \<noteq> [] \<Longrightarrow> int (length b) \<le> B \<Longrightarrow> well_chunked B (ws @ [b])"
  unfolding well_chunked_def by simp

lemma disp_snoc:
  assumes "disp s" "writes s' = writes s @ [b]" "display s' = display s"
    "fileCount s' = fileCount s"
  shows "disp s'"
  using assms whole_batches_append unfolding disp_def by metis

lemma disp_count:
  assumes "disp s" "writes s' = writes s" "display s' = display s"
    "fileCount s \<le> fileCount s'"
  shows "disp s'"
  using assms unfolding disp_def by force

lemma dataI:
  assumes "concat (writes s) @ unflushed_at (pc s) (batch s) @
      held_at (pc s) (curPath s) (pathLength s) = map record_of (take (popped s) S)"
    "outputFile s = (if writes s = [] then [] else header # concat (writes s))"
    "wbuf s = (if writes s = [] then [header] else [])"
    "fileCount s + lag_at (pc s) (batch s) = int (length (concat (writes s)))"
  shows "data S s"
  unfolding data_def using assms by blast

lemma dataD:
  assumes "data S s"
  shows "concat (writes s) @ unflushed_at (pc s) (batch s) @
      held_at (pc s) (curPath s) (pathLength s) = map record_of (take (popped s) S)"
    "outputFile s = (if writes s = [] then [] else header # concat (writes s))"
    "wbuf s = (if writes s = [] then [header] else [])"
    "fileCount s + lag_at (pc s) (batch s) = int (length (concat (writes s)))"
  using assms unfolding data_def by blast+

lemma shapeD:
  assumes "shape B s"
  shows "batch_ok B (pc s) (batch s)" "log_ok B (pc s) (batch s) (writes s)"
  using assms unfolding shape_def by blast+

lemma chan_eos:
  assumes "chan S R s" "ppc s' = ppc s" "closed s' = closed s" "to_send s' = to_send s"
    "scanErr s' = scanErr s" "pathChan s' = pathChan s" "popped s' = popped s"
    "eos_ok (pc s') (closed s) (pathChan s)"
  shows "chan S R s'"
  using assms(1,8) unfolding chan_def assms(2-7) by blast

text \<open>
  A step of the main goroutine that touches its local variables only: the batch, the
  length of line 110 and the place in the code.
\<close>

lemma local_step:
  assumes r: "running S R B s"
    and t: "t = s\<lparr> batch := b', pathLength := l', pc := pc' \<rparr>"
    and p: "pc s \<noteq> Report" "pc' \<noteq> Report" "pc' \<noteq> Exited"
    and eos: "eos_ok (pc s) (closed s) (pathChan s) \<Longrightarrow> eos_ok pc' (closed s) (pathChan s)"
    and dat: "unflushed_at pc' b' @ held_at pc' (curPath s) l' =
      unflushed_at (pc s) (batch s) @ held_at (pc s) (curPath s) (pathLength s)"
    and lag: "lag_at pc' b' = lag_at (pc s) (batch s)"
    and sh: "batch_ok B (pc s) (batch s) \<Longrightarrow> log_ok B (pc s) (batch s) (writes s) \<Longrightarrow> 0 < B \<Longrightarrow>
      batch_ok B pc' b' \<and> log_ok B pc' b' (writes s)"
  shows "running S R B t"
proof -
  note r' = runningD [OF r]
  from r'(1) have c: "exit_code s = None" "stderr s = []" "stdout s = []" "created s"
      "batchSize s = B" "walk_ret s = R" "0 < B" "spinning s"
    unfolding ctl_def using p(1) by auto
  have "ctl R B t" using c p(2,3) by (simp add: ctl_def t)
  moreover have "chan S R t"
  proof -
    from r'(2) have "eos_ok (pc s) (closed s) (pathChan s)" unfolding chan_def by blast
    then have "eos_ok (pc t) (closed s) (pathChan s)" using eos by (simp add: t)
    then show ?thesis by (intro chan_eos [OF r'(2)]) (simp_all add: t)
  qed
  moreover have "data S t"
  proof (rule dataI)
    note d = dataD [OF r'(3)]
    show "concat (writes t) @ unflushed_at (pc t) (batch t) @
        held_at (pc t) (curPath t) (pathLength t) = map record_of (take (popped t) S)"
      using d(1) dat by (simp add: t)
    show "outputFile t = (if writes t = [] then [] else header # concat (writes t))"
      using d(2) by (simp add: t)
    show "wbuf t = (if writes t = [] then [header] else [])" using d(3) by (simp add: t)
    show "fileCount t + lag_at (pc t) (batch t) = int (length (concat (writes t)))"
      using d(4) lag by (simp add: t)
  qed
  moreover have "shape B t"
    using sh [OF shapeD [OF r'(4)] c(7)] unfolding shape_def by (simp add: t)
  moreover have "disp t = disp s" by (rule disp_frame) (simp_all add: t)
  with r'(5) have "disp t" by simp
  ultimately show ?thesis by (rule runningI)
qed

lemma consumer_Alloc:
  assumes r: "running S R B s" and p: "pc s = Alloc"
  shows "running S R B (step_consumer env s) \<or> final env S R B (step_consumer env s)"
proof -
  note r' = runningD [OF r]
  from r'(1) have c: "exit_code s = None" "stderr s = []" "stdout s = []" "created s"
      "batchSize s = B" "walk_ret s = R" "0 < B" "spinning s"
    unfolding ctl_def using p by auto
  from r'(4) p have b: "batch s = []" "writes s = []" unfolding shape_def by simp_all
  from r'(3) p b have d: "outputFile s = []" "wbuf s = [header]" "fileCount s = 0"
    unfolding data_def by simp_all
  show ?thesis
  proof (cases "makeslice_ok (batchSize s)")
    case True
    with p have eq: "step_consumer env s = s\<lparr> batch := batch s, pathLength := pathLength s,
        pc := Recv \<rparr>"
      by (simp add: step_consumer_def)
    have "running S R B (step_consumer env s)"
      by (rule local_step [OF r eq]) (simp_all add: p)
    then show ?thesis ..
  next
    case False
    let ?t = "step_consumer env s"
    from False p have eq: "?t = panic env PanicMakeslice s"
      by (simp add: step_consumer_def)
    have f: "pc ?t = Exited" "exit_code ?t = Some 2" "stderr ?t = [PanicMakeslice]"
      "stdout ?t = []" "created ?t" "batchSize ?t = B" "walk_ret ?t = R" "writes ?t = []"
      "fileCount ?t = 0" "display ?t = display s"
      "outputFile ?t @ wbuf ?t = [header]"
      "wbuf ?t = [] \<or> wbuf ?t = [header] \<and> outputFile ?t = []"
      using c b d by (simp_all add: eq panic_def run_deferred_def split: option.splits)
    have "disp ?t" by (rule disp_count [OF r'(5)]) (simp_all add: f b d)
    with f c(7) have "exited R B ?t" by (simp add: exited_def well_chunked_def)
    moreover from f False c(5) have "panic_exit ?t" by (simp add: panic_exit_def)
    ultimately show ?thesis by (simp add: final_def)
  qed
qed

lemma drop_Cons_facts:
  assumes "drop n S = x # rest"
  shows "n < length S" "take (Suc n) S = take n S @ [x]" "drop (Suc n) S = rest"
proof -
  from assms show n: "n < length S" by (metis drop_all list.distinct(1) not_le)
  from Cons_nth_drop_Suc [OF n] assms have x: "S ! n = x" and "drop (Suc n) S = rest" by simp_all
  then show "drop (Suc n) S = rest" by simp
  from take_Suc_conv_app_nth [OF n] x show "take (Suc n) S = take n S @ [x]" by simp
qed

lemma consumer_Recv:
  assumes r: "running S R B s" and p: "pc s = Recv"
  shows "running S R B (step_consumer env s)"
proof -
  note r' = runningD [OF r]
  from r'(1) have c: "exit_code s = None" "stderr s = []" "stdout s = []" "created s"
      "batchSize s = B" "walk_ret s = R" "0 < B" "spinning s"
    unfolding ctl_def using p by auto
  from r'(2) have ch: "ppc s \<noteq> Idle" "closed s \<longrightarrow> ppc s = Finished"
      "ppc s = Finished \<longrightarrow> closed s" "ppc s \<noteq> Walking \<longrightarrow> to_send s = [] \<and> scanErr s = R"
      "length (pathChan s) \<le> chanCap" "popped s \<le> length S"
      "pathChan s @ to_send s = drop (popped s) S"
    unfolding chan_def by blast+
  from r'(3) p have d: "concat (writes s) @ batch s = map record_of (take (popped s) S)"
      "outputFile s = (if writes s = [] then [] else header # concat (writes s))"
      "wbuf s = (if writes s = [] then [header] else [])"
      "fileCount s = int (length (concat (writes s)))"
    unfolding data_def by simp_all
  from r'(4) p have sh: "int (length (batch s)) < B" "all_full B (writes s)"
    unfolding shape_def by simp_all
  show ?thesis
  proof (cases "pathChan s")
    case (Cons x q)
    define t where "t = s\<lparr> pathChan := q, curPath := x, popped := popped s + 1, pc := Len \<rparr>"
    from p Cons have eq: "step_consumer env s = t"
      by (simp add: step_consumer_def t_def)
    from ch(7) Cons have dr: "drop (popped s) S = x # (q @ to_send s)" by simp
    note df = drop_Cons_facts [OF dr]
    have tf: "pc t = Len" "batch t = batch s" "popped t = Suc (popped s)"
      "pathChan t = q" "writes t = writes s" "to_send t = to_send s" "closed t = closed s"
      "ppc t = ppc s" "scanErr t = scanErr s" "outputFile t = outputFile s" "wbuf t = wbuf s"
      "fileCount t = fileCount s" "curPath t = x"
      by (simp_all add: t_def)
    have "ctl R B t" using c by (simp add: ctl_def t_def)
    moreover have "chan S R t"
    proof -
      have "length q \<le> chanCap" using ch(5) Cons by simp
      moreover have "Suc (popped s) \<le> length S" using df(1) by simp
      ultimately show ?thesis using ch df(3) unfolding chan_def tf by simp
    qed
    moreover have "data S t"
    proof -
      have "concat (writes s) @ batch s @ [record_of x] =
          map record_of (take (Suc (popped s)) S)"
        using d(1) df(2) by simp
      then show ?thesis using d(2,3,4) unfolding data_def tf by simp
    qed
    moreover have "shape B t" using sh unfolding shape_def tf by simp
    moreover have "disp t = disp s" by (rule disp_frame) (simp_all add: t_def)
    ultimately show ?thesis using r'(5) by (simp add: eq running_def)
  next
    case Nil
    show ?thesis
    proof (cases "closed s")
      case False
      with p Nil have "step_consumer env s = s" by (simp add: step_consumer_def)
      with r show ?thesis by simp
    next
      case True
      with p Nil have eq: "step_consumer env s = s\<lparr> batch := batch s,
          pathLength := pathLength s, pc := FinalTest \<rparr>"
        by (simp add: step_consumer_def)
      show ?thesis by (rule local_step [OF r eq]) (simp_all add: p True Nil)
    qed
  qed
qed

lemma consumer_Len:
  assumes r: "running S R B s" and p: "pc s = Len"
  shows "running S R B (step_consumer env s)"
proof -
  from p have eq: "step_consumer env s = s\<lparr> batch := batch s,
      pathLength := int (length (curPath s)), pc := Append \<rparr>"
    by (simp add: step_consumer_def)
  show ?thesis by (rule local_step [OF r eq]) (simp_all add: p record_of_def)
qed

lemma consumer_Append:
  assumes r: "running S R B s" and p: "pc s = Append"
  shows "running S R B (step_consumer env s)"
proof -
  from p have eq: "step_consumer env s =
      s\<lparr> batch := batch s @ [[curPath s, Itoa (pathLength s)]], pathLength := pathLength s,
         pc := Test \<rparr>"
    by (simp add: step_consumer_def)
  show ?thesis by (rule local_step [OF r eq]) (simp_all add: p)
qed

lemma consumer_Test:
  assumes r: "running S R B s" and p: "pc s = Test"
  shows "running S R B (step_consumer env s)"
proof -
  from runningD(1) [OF r] have B: "batchSize s = B" unfolding ctl_def by blast
  define pc' where "pc' = (if int (length (batch s)) \<ge> batchSize s then WriteBatch else Recv)"
  from p have eq: "step_consumer env s = s\<lparr> batch := batch s, pathLength := pathLength s,
      pc := pc' \<rparr>"
    by (simp add: step_consumer_def pc'_def)
  have pcs: "pc' = WriteBatch \<and> int (length (batch s)) \<ge> B \<or>
      pc' = Recv \<and> int (length (batch s)) < B"
    using B by (simp add: pc'_def)
  show ?thesis
  proof (rule local_step [OF r eq])
    show "pc s \<noteq> Report" using p by simp
    show "pc' \<noteq> Report" "pc' \<noteq> Exited" using pcs by auto
    show "eos_ok pc' (closed s) (pathChan s)" using pcs by auto
    show "unflushed_at pc' (batch s) @ held_at pc' (curPath s) (pathLength s) =
        unflushed_at (pc s) (batch s) @ held_at (pc s) (curPath s) (pathLength s)"
      using pcs p by auto
    show "lag_at pc' (batch s) = lag_at (pc s) (batch s)" using pcs p by auto
    show "batch_ok B pc' (batch s) \<and> log_ok B pc' (batch s) (writes s)"
      if "batch_ok B (pc s) (batch s)" "log_ok B (pc s) (batch s) (writes s)"
      using that pcs p by auto
  qed
qed

lemma consumer_Reset:
  assumes r: "running S R B s" and p: "pc s = Reset"
  shows "running S R B (step_consumer env s)"
proof -
  from p have eq: "step_consumer env s = s\<lparr> batch := [], pathLength := pathLength s,
      pc := Recv \<rparr>"
    by (simp add: step_consumer_def)
  show ?thesis by (rule local_step [OF r eq]) (simp_all add: p)
qed

lemma consumer_FinalTest:
  assumes r: "running S R B s" and p: "pc s = FinalTest"
  shows "running S R B (step_consumer env s)"
proof -
  note r' = runningD [OF r]
  from r'(1) have c: "0 < B" unfolding ctl_def by blast
  define pc' where "pc' = (if length (batch s) > 0 then FinalWrite else Stop)"
  from p have eq: "step_consumer env s = s\<lparr> batch := batch s, pathLength := pathLength s,
      pc := pc' \<rparr>"
    by (simp add: step_consumer_def pc'_def)
  have pcs: "pc' = FinalWrite \<and> batch s \<noteq> [] \<or> pc' = Stop \<and> batch s = []"
    by (simp add: pc'_def)
  show ?thesis
  proof (rule local_step [OF r eq])
    show "pc s \<noteq> Report" using p by simp
    show "pc' \<noteq> Report" "pc' \<noteq> Exited" using pcs by auto
    show "eos_ok pc' (closed s) (pathChan s)" if "eos_ok (pc s) (closed s) (pathChan s)"
      using that pcs p by auto
    show "unflushed_at pc' (batch s) @ held_at pc' (curPath s) (pathLength s) =
        unflushed_at (pc s) (batch s) @ held_at (pc s) (curPath s) (pathLength s)"
      using pcs p by auto
    show "lag_at pc' (batch s) = lag_at (pc s) (batch s)" using pcs p by auto
    show "batch_ok B pc' (batch s) \<and> log_ok B pc' (batch s) (writes s)"
      if "batch_ok B (pc s) (batch s)" "log_ok B (pc s) (batch s) (writes s)" "0 < B"
      using that pcs p all_full_well_chunked [of B "writes s"] by auto
  qed
qed

lemma write_failed:
  assumes r: "running S R B s" and p: "pc s = WriteBatch \<or> pc s = FinalWrite"
    and fl: "flush_error env (length (outputFile s)) = Some err"
    and m: "msg = ErrBatch err \<or> msg = ErrFinalBatch err"
  shows "final env S R B (die msg s)"
proof -
  note r' = runningD [OF r]
  let ?t = "die msg s"
  from r'(1) have c: "exit_code s = None" "stderr s = []" "stdout s = []" "created s"
      "batchSize s = B" "walk_ret s = R" "0 < B"
    unfolding ctl_def by auto
  from r'(2) have ch: "popped s \<le> length S" unfolding chan_def by blast
  from r'(3) p have d: "concat (writes s) @ batch s = map record_of (take (popped s) S)"
      "outputFile s = (if writes s = [] then [] else header # concat (writes s))"
      "wbuf s = (if writes s = [] then [header] else [])"
      "fileCount s = int (length (concat (writes s)))"
    unfolding data_def by auto
  from r'(4) p have sh: "batch s \<noteq> []" "all_full B (writes s)"
    unfolding shape_def using c(7) by auto
  have tf: "pc ?t = Exited" "exit_code ?t = Some 1" "stderr ?t = [msg]" "stdout ?t = []"
    "created ?t" "batchSize ?t = B" "walk_ret ?t = R" "writes ?t = writes s"
    "outputFile ?t = outputFile s" "wbuf ?t = wbuf s" "fileCount ?t = fileCount s"
    "display ?t = display s" "popped ?t = popped s" "batch ?t = batch s"
    using c by (simp_all add: die_def)
  have "disp ?t = disp s" by (rule disp_frame) (simp_all add: tf)
  with r'(5) have "disp ?t" by simp
  moreover have "outputFile s @ wbuf s = header # concat (writes s)"
    "wbuf s = [] \<or> wbuf s = [header] \<and> outputFile s = []"
    using d(2,3) by (simp_all split: if_splits)
  ultimately have "exited R B ?t"
    using c(7) d(4) all_full_well_chunked [OF sh(2) c(7)] by (simp add: exited_def tf)
  moreover have "write_exit env S ?t"
    unfolding write_exit_def tf using m fl ch sh(1) d(1) by auto
  ultimately show ?thesis by (simp add: final_def)
qed

lemma write_done:
  assumes r: "running S R B s" and p: "pc s = WriteBatch \<and> pc' = Count \<or> pc s = FinalWrite \<and> pc' = FinalCount"
  shows "running S R B (s\<lparr> outputFile := outputFile s @ wbuf s @ batch s, wbuf := [],
     writes := writes s @ [batch s], pc := pc' \<rparr>)"
proof -
  note r' = runningD [OF r]
  define t where "t = s\<lparr> outputFile := outputFile s @ wbuf s @ batch s, wbuf := [],
     writes := writes s @ [batch s], pc := pc' \<rparr>"
  from r'(1) have c: "exit_code s = None" "stderr s = []" "stdout s = []" "created s"
      "batchSize s = B" "walk_ret s = R" "0 < B" "spinning s"
    unfolding ctl_def using p by auto
  from r'(3) p have d: "concat (writes s) @ batch s = map record_of (take (popped s) S)"
      "outputFile s = (if writes s = [] then [] else header # concat (writes s))"
      "wbuf s = (if writes s = [] then [header] else [])"
      "fileCount s = int (length (concat (writes s)))"
    unfolding data_def by auto
  from r'(4) p have sh: "batch s \<noteq> []" "int (length (batch s)) \<le> B" "all_full B (writes s)"
      "pc' = Count \<longrightarrow> int (length (batch s)) = B"
      "pc' = FinalCount \<longrightarrow> int (length (batch s)) < B"
    unfolding shape_def using c(7) by auto
  have pcs: "pc' = Count \<or> pc' = FinalCount" using p by auto
  have "ctl R B t" using c pcs by (auto simp: ctl_def t_def)
  moreover have "chan S R t"
  proof -
    from r'(2) have "eos_ok (pc s) (closed s) (pathChan s)" unfolding chan_def by blast
    with p have "eos_ok pc' (closed s) (pathChan s)" by auto
    then show ?thesis using r'(2) unfolding chan_def t_def by simp
  qed
  moreover have "data S t"
  proof -
    have u: "unflushed_at pc' (batch s) = []" using pcs by auto
    have l: "lag_at pc' (batch s) = int (length (batch s))" using pcs by auto
    have h: "held_at pc' (curPath s) (pathLength s) = []" using pcs by auto
    show ?thesis
    proof (rule dataI)
      show "concat (writes t) @ unflushed_at (pc t) (batch t) @
          held_at (pc t) (curPath t) (pathLength t) = map record_of (take (popped t) S)"
        using d(1) u h by (simp add: t_def)
      show "outputFile t = (if writes t = [] then [] else header # concat (writes t))"
        using d(2,3) by (simp add: t_def)
      show "wbuf t = (if writes t = [] then [header] else [])" by (simp add: t_def)
      show "fileCount t + lag_at (pc t) (batch t) = int (length (concat (writes t)))"
        using d(4) l by (simp add: t_def)
    qed
  qed
  moreover have "shape B t"
  proof -
    have "batch_ok B pc' (batch s)" using pcs sh by auto
    moreover have "log_ok B pc' (batch s) (writes s @ [batch s])"
      using pcs sh all_full_snoc [OF sh(3)] well_chunked_snoc [OF sh(3) sh(1) sh(2)] by auto
    ultimately show ?thesis unfolding shape_def t_def by simp
  qed
  moreover have "disp t" by (rule disp_snoc [OF r'(5)]) (simp_all add: t_def)
  ultimately show ?thesis unfolding t_def [symmetric] by (rule runningI)
qed

lemma consumer_WriteBatch:
  assumes r: "running S R B s" and p: "pc s = WriteBatch"
  shows "running S R B (step_consumer env s) \<or> final env S R B (step_consumer env s)"
proof (cases "flush_error env (length (outputFile s))")
  case None
  with p have "step_consumer env s = s\<lparr> outputFile := outputFile s @ wbuf s @ batch s,
      wbuf := [], writes := writes s @ [batch s], pc := Count \<rparr>"
    by (simp add: step_consumer_def WriteAll_def)
  with write_done [OF r, of Count] p show ?thesis by simp
next
  case (Some err)
  with p have "step_consumer env s = die (ErrBatch err) s"
    by (simp add: step_consumer_def WriteAll_def)
  with write_failed [OF r _ Some, of "ErrBatch err"] p show ?thesis by simp
qed

lemma consumer_FinalWrite:
  assumes r: "running S R B s" and p: "pc s = FinalWrite"
  shows "running S R B (step_consumer env s) \<or> final env S R B (step_consumer env s)"
proof (cases "flush_error env (length (outputFile s))")
  case None
  with p have "step_consumer env s = s\<lparr> outputFile := outputFile s @ wbuf s @ batch s,
      wbuf := [], writes := writes s @ [batch s], pc := FinalCount \<rparr>"
    by (simp add: step_consumer_def WriteAll_def)
  with write_done [OF r, of FinalCount] p show ?thesis by simp
next
  case (Some err)
  with p have "step_consumer env s = die (ErrFinalBatch err) s"
    by (simp add: step_consumer_def WriteAll_def)
  with write_failed [OF r _ Some, of "ErrFinalBatch err"] p show ?thesis by simp
qed

lemma consumer_Count:
  assumes r: "running S R B s"
    and p: "pc s = Count \<and> pc' = Reset \<or> pc s = FinalCount \<and> pc' = Stop"
  shows "running S R B (s\<lparr> fileCount := fileCount s + int (length (batch s)), pc := pc' \<rparr>)"
proof -
  note r' = runningD [OF r]
  define t where "t = s\<lparr> fileCount := fileCount s + int (length (batch s)), pc := pc' \<rparr>"
  from r'(1) have c: "exit_code s = None" "stderr s = []" "stdout s = []" "created s"
      "batchSize s = B" "walk_ret s = R" "0 < B" "spinning s"
    unfolding ctl_def using p by auto
  from r'(3) p have d: "concat (writes s) = map record_of (take (popped s) S)"
      "outputFile s = (if writes s = [] then [] else header # concat (writes s))"
      "wbuf s = (if writes s = [] then [header] else [])"
      "fileCount s + int (length (batch s)) = int (length (concat (writes s)))"
    unfolding data_def by auto
  note lo = shapeD [OF r'(4)]
  have pcs: "pc' = Reset \<or> pc' = Stop" using p by auto
  have "ctl R B t" using c pcs by (auto simp: ctl_def t_def)
  moreover have "chan S R t"
  proof -
    from r'(2) have "eos_ok (pc s) (closed s) (pathChan s)" unfolding chan_def by blast
    with p have "eos_ok pc' (closed s) (pathChan s)" by auto
    then show ?thesis by (intro chan_eos [OF r'(2)]) (simp_all add: t_def)
  qed
  moreover have "data S t"
  proof -
    have u: "unflushed_at pc' (batch s) = []" using pcs by auto
    have h: "held_at pc' (curPath s) (pathLength s) = []" using pcs by auto
    have l: "lag_at pc' (batch s) = 0" using pcs by auto
    show ?thesis
    proof (rule dataI)
      show "concat (writes t) @ unflushed_at (pc t) (batch t) @
          held_at (pc t) (curPath t) (pathLength t) = map record_of (take (popped t) S)"
        using d(1) u h by (simp add: t_def)
      show "outputFile t = (if writes t = [] then [] else header # concat (writes t))"
        using d(2) by (simp add: t_def)
      show "wbuf t = (if writes t = [] then [header] else [])" using d(3) by (simp add: t_def)
      show "fileCount t + lag_at (pc t) (batch t) = int (length (concat (writes t)))"
        using d(4) l by (simp add: t_def)
    qed
  qed
  moreover have "shape B t"
  proof -
    have "batch_ok B pc' (batch s)" using p lo(1) by auto
    moreover have "log_ok B pc' (batch s) (writes s)" using p lo(2) by auto
    ultimately show ?thesis unfolding shape_def t_def by simp
  qed
  moreover have "disp t" by (rule disp_count [OF r'(5)]) (simp_all add: t_def)
  ultimately show ?thesis unfolding t_def [symmetric] by (rule runningI)
qed

lemma consumer_Stop:
  assumes r: "running S R B s" and p: "pc s = Stop"
  shows "running S R B (step_consumer env s)"
proof -
  note r' = runningD [OF r]
  define t where "t = s\<lparr> spinning := False, pc := Report \<rparr>"
  from p have eq: "step_consumer env s = t" by (simp add: step_consumer_def t_def)
  have "ctl R B t" using r'(1) by (simp add: ctl_def t_def)
  moreover have "chan S R t"
  proof -
    from r'(2) have "eos_ok (pc s) (closed s) (pathChan s)" unfolding chan_def by blast
    with p have "eos_ok Report (closed s) (pathChan s)" by simp
    then show ?thesis by (intro chan_eos [OF r'(2)]) (simp_all add: t_def)
  qed
  moreover have "data S t" using r'(3) p by (simp add: data_def t_def)
  moreover have "shape B t" using r'(4) p by (simp add: shape_def t_def)
  moreover have "disp t = disp s" by (rule disp_frame) (simp_all add: t_def)
  ultimately show ?thesis using r'(5) by (simp add: eq running_def)
qed

lemma drained:
  assumes "chan S R s" "closed s" "pathChan s = []"
  shows "to_send s = []" "scanErr s = R" "popped s = length S" "take (popped s) S = S"
proof -
  from assms(1) have ch: "closed s \<longrightarrow> ppc s = Finished"
      "ppc s \<noteq> Walking \<longrightarrow> to_send s = [] \<and> scanErr s = R" "popped s \<le> length S"
      "pathChan s @ to_send s = drop (popped s) S"
    unfolding chan_def by blast+
  from ch(1) assms(2) have "ppc s = Finished" by simp
  with ch(2) show t: "to_send s = []" and "scanErr s = R" by simp_all
  from ch(4) t assms(3) have "drop (popped s) S = []" by simp
  with ch(3) show "popped s = length S" by simp
  then show "take (popped s) S = S" by simp
qed

lemma consumer_Report:
  assumes r: "running S R B s" and p: "pc s = Report"
  shows "final env S R B (step_consumer env s)"
proof -
  note r' = runningD [OF r]
  let ?t = "step_consumer env s"
  from r'(1) have c: "exit_code s = None" "stderr s = []" "stdout s = []" "created s"
      "batchSize s = B" "walk_ret s = R" "0 < B" "\<not> spinning s"
    unfolding ctl_def using p by auto
  from r'(2) have "eos_ok (pc s) (closed s) (pathChan s)" unfolding chan_def by blast
  with p have cl: "closed s" "pathChan s = []" by simp_all
  note dr = drained [OF r'(2) cl]
  from r'(3) p dr(4) have d: "concat (writes s) = map record_of S"
      "outputFile s = (if writes s = [] then [] else header # concat (writes s))"
      "wbuf s = (if writes s = [] then [header] else [])"
      "fileCount s = int (length (concat (writes s)))"
    unfolding data_def by simp_all
  from d(1,4) have fc: "fileCount s = int (length S)" by simp
  from shapeD(2) [OF r'(4)] p have wc: "well_chunked B (writes s)" by simp
  from d(1) have we: "writes s = [] \<longrightarrow> S = []" by auto
  from d(1) well_chunked_concat_Nil [OF wc c(7)] have ne: "(S = []) = (writes s = [])" by auto
  show ?thesis
  proof (cases "scanErr s")
    case (Some err)
    with p have eq: "?t = die (ErrWalk err) s" by (simp add: step_consumer_def)
    have tf: "pc ?t = Exited" "exit_code ?t = Some 1" "stderr ?t = [ErrWalk err]"
      "stdout ?t = []" "created ?t" "batchSize ?t = B" "walk_ret ?t = R"
      "writes ?t = writes s" "outputFile ?t = outputFile s" "wbuf ?t = wbuf s"
      "fileCount ?t = fileCount s" "display ?t = display s" "popped ?t = popped s"
      "closed ?t" "pathChan ?t = []" "to_send ?t = []" "\<not> spinning ?t" "scanErr ?t = R"
      using c cl dr by (simp_all add: eq die_def)
    have "disp ?t = disp s" by (rule disp_frame) (simp_all add: tf)
    with r'(5) have "disp ?t" by simp
    moreover have "outputFile s @ wbuf s = header # concat (writes s)"
      "wbuf s = [] \<or> wbuf s = [header] \<and> outputFile s = []"
      using d(2,3) by (simp_all split: if_splits)
    ultimately have "exited R B ?t" using c(7) d(4) wc by (simp add: exited_def tf)
    moreover have "walk_exit S ?t"
      using Some dr(2,3) d(1,3) ne by (simp add: walk_exit_def tf)
    ultimately show ?thesis by (simp add: final_def)
  next
    case None
    define u where "u = s\<lparr> stdout := stdout s @ [Done (fileCount s), Created] \<rparr>"
    from None p have eq: "?t = (run_deferred env u)\<lparr> exit_code := Some 0, pc := Exited \<rparr>"
      by (simp add: step_consumer_def u_def)
    have tf: "pc ?t = Exited" "exit_code ?t = Some 0" "stderr ?t = []"
      "stdout ?t = [Done (int (length S)), Created]" "created ?t" "batchSize ?t = B"
      "walk_ret ?t = R" "writes ?t = writes s" "fileCount ?t = fileCount s"
      "display ?t = display s" "popped ?t = length S" "closed ?t" "pathChan ?t = []"
      "to_send ?t = []" "\<not> spinning ?t" "scanErr ?t = None"
      using c cl dr fc None
      by (simp_all add: eq u_def run_deferred_def split: option.splits)
    have fl: "outputFile ?t @ wbuf ?t = header # concat (writes s)"
      "wbuf ?t = [] \<or> wbuf ?t = [header] \<and> outputFile ?t = []"
      "wbuf ?t \<noteq> [] \<longrightarrow> S = [] \<and> flush_error env 0 \<noteq> None"
      using d(2,3) we by (auto simp add: eq u_def run_deferred_def split: option.splits if_splits)
    have "disp ?t = disp s" by (rule disp_frame) (simp_all add: tf)
    with r'(5) have "disp ?t" by simp
    then have "exited R B ?t" using c(7) d(4) wc fl(1,2) by (simp add: exited_def tf)
    moreover have "ok_exit env S ?t"
      using None dr(2) d(1) fl(3) c(6) by (simp add: ok_exit_def tf)
    ultimately show ?thesis by (simp add: final_def)
  qed
qed

lemma running_consumer:
  assumes r: "running S R B s"
  shows "running S R B (step_consumer env s) \<or> final env S R B (step_consumer env s)"
proof (cases "pc s")
  case Alloc
  with r show ?thesis by (rule consumer_Alloc)
next
  case Recv
  with r show ?thesis by (simp add: consumer_Recv)
next
  case Len
  with r show ?thesis by (simp add: consumer_Len)
next
  case Append
  with r show ?thesis by (simp add: consumer_Append)
next
  case Test
  with r show ?thesis by (simp add: consumer_Test)
next
  case WriteBatch
  with r show ?thesis by (rule consumer_WriteBatch)
next
  case Count
  then have "step_consumer env s =
      s\<lparr> fileCount := fileCount s + int (length (batch s)), pc := Reset \<rparr>"
    by (simp add: step_consumer_def)
  with consumer_Count [OF r, of Reset] Count show ?thesis by simp
next
  case Reset
  with r show ?thesis by (simp add: consumer_Reset)
next
  case FinalTest
  with r show ?thesis by (simp add: consumer_FinalTest)
next
  case FinalWrite
  with r show ?thesis by (rule consumer_FinalWrite)
next
  case FinalCount
  then have "step_consumer env s =
      s\<lparr> fileCount := fileCount s + int (length (batch s)), pc := Stop \<rparr>"
    by (simp add: step_consumer_def)
  with consumer_Count [OF r, of Stop] FinalCount show ?thesis by simp
next
  case Stop
  with r show ?thesis by (simp add: consumer_Stop)
next
  case Report
  with r show ?thesis by (simp add: consumer_Report)
next
  case Exited
  with runningD(1) [OF r] show ?thesis by (simp add: ctl_def)
qed

lemma final_step:
  assumes "final env S R B s"
  shows "step env a s = s"
proof -
  from assms have "pc s = Exited" "exit_code s \<noteq> None" by (simp_all add: final_def exited_def)
  then show ?thesis
    by (cases a) (auto simp: step_producer_def step_consumer_def step_spinner_def)
qed

lemma reach_step:
  assumes "reach env S R B s"
  shows "reach env S R B (step env a s)"
proof (cases "running S R B s")
  case True
  show ?thesis
  proof (cases a)
    case Producer
    with running_producer [OF True] show ?thesis by (simp add: reach_def)
  next
    case Consumer
    with running_consumer [OF True, of env] show ?thesis by (simp add: reach_def)
  next
    case Spinner
    with running_spinner [OF True] show ?thesis by (simp add: reach_def)
  qed
next
  case False
  with assms have f: "final env S R B s" by (simp add: reach_def)
  from final_step [OF f] f show ?thesis by (simp add: reach_def)
qed

lemma reach_exec: "reach env S R B s \<Longrightarrow> reach env S R B (exec env sched s)"
  by (induction sched arbitrary: s) (simp_all add: reach_step)

section \<open>The first state of a run\<close>

lemma parse_batch_size_pos: "parse_batch_size rest = Some B \<Longrightarrow> 0 < B"
  by (auto simp: parse_batch_size_def defaultBatchSize_def split: list.splits option.splits if_splits)

lemma main_start_cases:
  obtains (started) dirPath rest B where "argv = dirPath # rest"
      "parse_batch_size rest = Some B" "os_Stat env dirPath = Inr True"
      "create_error env = None" "header_error env = None"
      "main_start env prog argv = started env dirPath B"
  | (usage) "argv = []" "main_start env prog argv = die (Usage prog) blank"
  | (batch) dirPath rest where "argv = dirPath # rest" "parse_batch_size rest = None"
      "main_start env prog argv = die BadBatchSize blank"
  | (access) dirPath rest err where "argv = dirPath # rest" "os_Stat env dirPath = Inl err"
      "main_start env prog argv = die (ErrAccess err) blank"
  | (notdir) dirPath rest where "argv = dirPath # rest" "os_Stat env dirPath = Inr False"
      "main_start env prog argv = die (NotDirectory dirPath) blank"
  | (create) dirPath rest B err where "argv = dirPath # rest"
      "parse_batch_size rest = Some B" "os_Stat env dirPath = Inr True"
      "create_error env = Some err" "main_start env prog argv = die (ErrCreate err) blank"
  | (header) dirPath rest B err where "argv = dirPath # rest"
      "parse_batch_size rest = Some B" "os_Stat env dirPath = Inr True"
      "create_error env = None" "header_error env = Some err"
      "main_start env prog argv = die (ErrHeader err) (blank\<lparr> created := True \<rparr>)"
proof (cases argv)
  case Nil
  then have "main_start env prog argv = die (Usage prog) blank" by (simp add: main_start_def)
  with Nil show ?thesis by (rule usage)
next
  case (Cons dirPath rest)
  show ?thesis
  proof (cases "parse_batch_size rest")
    case None
    with Cons have "main_start env prog argv = die BadBatchSize blank"
      by (simp add: main_start_def)
    with Cons None show ?thesis by (rule batch)
  next
    case (Some B)
    show ?thesis
    proof (cases "os_Stat env dirPath")
      case (Inl err)
      with Cons Some have "main_start env prog argv = die (ErrAccess err) blank"
        by (simp add: main_start_def)
      with Cons Inl show ?thesis by (rule access)
    next
      case (Inr isdir)
      show ?thesis
      proof (cases isdir)
        case False
        with Cons Some Inr have "main_start env prog argv = die (NotDirectory dirPath) blank"
          by (simp add: main_start_def)
        with Cons Inr False show ?thesis by (intro notdir) simp_all
      next
        case True
        note st = Inr [unfolded True [THEN eqTrueI]]
        show ?thesis
        proof (cases "create_error env")
          case (Some err)
          with Cons \<open>parse_batch_size rest = Some B\<close> st
          have "main_start env prog argv = die (ErrCreate err) blank"
            by (simp add: main_start_def)
          with Cons \<open>parse_batch_size rest = Some B\<close> st Some show ?thesis by (rule create)
        next
          case None
          show ?thesis
          proof (cases "header_error env")
            case (Some err)
            with Cons \<open>parse_batch_size rest = Some B\<close> st None
            have "main_start env prog argv = die (ErrHeader err) (blank\<lparr> created := True \<rparr>)"
              by (simp add: main_start_def)
            with Cons \<open>parse_batch_size rest = Some B\<close> st None Some
            show ?thesis by (rule header)
          next
            case hn: None
            with Cons \<open>parse_batch_size rest = Some B\<close> st None
            have "main_start env prog argv = started env dirPath B"
              by (simp add: main_start_def started_def)
            with Cons \<open>parse_batch_size rest = Some B\<close> st None hn
            show ?thesis by (rule started)
          qed
        qed
      qed
    qed
  qed
qed

lemma running_started:
  assumes "0 < B"
  shows "running (snd (scan env dirPath)) (fst (scan env dirPath)) B (started env dirPath B)"
proof (rule runningI)
  show "ctl (fst (scan env dirPath)) B (started env dirPath B)"
    using assms by (simp add: ctl_def started_def blank_def)
  show "chan (snd (scan env dirPath)) (fst (scan env dirPath)) (started env dirPath B)"
    by (simp add: chan_def started_def blank_def)
  show "data (snd (scan env dirPath)) (started env dirPath B)"
    by (simp add: data_def started_def blank_def)
  show "shape B (started env dirPath B)"
    by (simp add: shape_def started_def blank_def)
  show "disp (started env dirPath B)"
    by (simp add: disp_def started_def blank_def)
qed

lemma exited_exec:
  assumes "pc s = Exited" "exit_code s \<noteq> None"
  shows "exec env sched s = s"
proof (induction sched)
  case Nil
  show ?case by simp
next
  case (Cons a sched)
  from assms have "step env a s = s"
    by (cases a) (auto simp: step_producer_def step_consumer_def step_spinner_def)
  with Cons show ?case by simp
qed

lemma exit_code_started [simp]: "exit_code (started env dirPath B) = None"
  by (simp add: started_def blank_def)

lemma exit_code_die [simp]: "exit_code (die msg s) = Some 1"
  by (simp add: die_def)

lemma main_start_running:
  assumes "exit_code (main_start env prog argv) = None"
  obtains dirPath rest where "argv = dirPath # rest"
    "parse_batch_size rest = Some (batchSize (main_start env prog argv))"
    "os_Stat env dirPath = Inr True" "create_error env = None" "header_error env = None"
    "main_start env prog argv = started env dirPath (batchSize (main_start env prog argv))"
    "0 < batchSize (main_start env prog argv)"
    "running (snd (scan env dirPath)) (fst (scan env dirPath))
       (batchSize (main_start env prog argv)) (main_start env prog argv)"
proof (cases rule: main_start_cases [where argv = argv and env = env and prog = prog])
  case (started dirPath rest B)
  have b: "batchSize (main_start env prog argv) = B"
    unfolding started(6) by (simp add: started_def)
  from parse_batch_size_pos [OF started(2)] have pos: "0 < B" .
  show ?thesis
  proof (rule that [of dirPath rest])
    show "argv = dirPath # rest" by (rule started(1))
    show "parse_batch_size rest = Some (batchSize (main_start env prog argv))"
      unfolding b by (rule started(2))
    show "os_Stat env dirPath = Inr True" by (rule started(3))
    show "create_error env = None" by (rule started(4))
    show "header_error env = None" by (rule started(5))
    show "main_start env prog argv = started env dirPath (batchSize (main_start env prog argv))"
      unfolding b by (rule started(6))
    show "0 < batchSize (main_start env prog argv)" unfolding b by (rule pos)
    show "running (snd (scan env dirPath)) (fst (scan env dirPath))
       (batchSize (main_start env prog argv)) (main_start env prog argv)"
      unfolding b unfolding started(6) by (rule running_started [OF pos])
  qed
qed (use assms in simp_all)

section \<open>Every fair schedule ends the run\<close>

lemma mu_pos: "pc s \<noteq> Exited \<Longrightarrow> 0 < mu s"
  by (cases "pc s") (simp_all add: mu_def)

lemma producer_blocked: "\<not> enP s \<Longrightarrow> step_producer s = s"
  by (cases s rule: step_producer_cases) (auto simp: enP_def)

lemma producer_progress:
  assumes "enP s" "pc s \<noteq> Exited"
  shows "mu (step_producer s) < mu s"
proof -
  from assms(1) have ex: "exit_code s = None" unfolding enP_def by blast
  from assms(1) consider (ret) "ppc s = Walking" "to_send s = []"
    | (push) "ppc s = Walking" "to_send s \<noteq> []" "length (pathChan s) < chanCap"
    | (close) "ppc s = Closing"
    unfolding enP_def by blast
  then show ?thesis
  proof cases
    case ret
    with ex assms(2) show ?thesis by (simp add: step_producer_def mu_def)
  next
    case push
    with ex assms(2) show ?thesis
      by (cases "to_send s") (simp_all add: step_producer_def mu_def)
  next
    case close
    with ex assms(2) show ?thesis by (simp add: step_producer_def mu_def)
  qed
qed

lemma consumer_blocked: "blockedC s \<Longrightarrow> step_consumer env s = s"
  by (auto simp: blockedC_def step_consumer_def)

lemma consumer_progress:
  assumes "\<not> blockedC s"
  shows "mu (step_consumer env s) < mu s"
proof (cases "pc s")
  case Alloc
  then show ?thesis
    by (simp add: step_consumer_def mu_def panic_def)
next
  case Recv
  show ?thesis
  proof (cases "pathChan s")
    case Nil
    with Recv assms have "closed s" by (simp add: blockedC_def)
    with Recv Nil show ?thesis by (simp add: step_consumer_def mu_def)
  next
    case (Cons path q)
    with Recv show ?thesis by (simp add: step_consumer_def mu_def Let_def)
  qed
next
  case Len
  then show ?thesis by (simp add: step_consumer_def mu_def)
next
  case Append
  then show ?thesis by (simp add: step_consumer_def mu_def)
next
  case Test
  then show ?thesis by (simp add: step_consumer_def mu_def)
next
  case WriteBatch
  then show ?thesis
    by (cases "flush_error env (length (outputFile s))")
       (simp_all add: step_consumer_def WriteAll_def mu_def die_def)
next
  case Count
  then show ?thesis by (simp add: step_consumer_def mu_def)
next
  case Reset
  then show ?thesis by (simp add: step_consumer_def mu_def)
next
  case FinalTest
  then show ?thesis by (simp add: step_consumer_def mu_def)
next
  case FinalWrite
  then show ?thesis
    by (cases "flush_error env (length (outputFile s))")
       (simp_all add: step_consumer_def WriteAll_def mu_def die_def)
next
  case FinalCount
  then show ?thesis by (simp add: step_consumer_def mu_def)
next
  case Stop
  then show ?thesis by (simp add: step_consumer_def mu_def)
next
  case Report
  then show ?thesis
    by (cases "scanErr s") (simp_all add: step_consumer_def mu_def die_def)
next
  case Exited
  with assms show ?thesis by (simp add: blockedC_def)
qed

lemma no_deadlock:
  assumes "running S R B s" "blockedC s"
  shows "enP s"
proof -
  note r = runningD [OF assms(1)]
  from r(1) have c: "pc s \<noteq> Exited" "exit_code s = None" unfolding ctl_def by blast+
  with assms(2) have b: "pc s = Recv" "pathChan s = []" "\<not> closed s"
    by (auto simp: blockedC_def)
  from r(2) have ch: "ppc s \<noteq> Idle" "ppc s = Finished \<longrightarrow> closed s"
    unfolding chan_def by blast+
  with b(3) have "ppc s = Walking \<or> ppc s = Closing" by (cases "ppc s") auto
  with b(2) c(2) show ?thesis by (auto simp: enP_def chanCap_def)
qed

lemma spinner_enP: "enP (step_spinner s) = enP s"
  by (simp add: step_spinner_def enP_def)

lemma spinner_blockedC: "blockedC (step_spinner s) = blockedC s"
  by (simp add: step_spinner_def blockedC_def)

lemma spinner_mu: "mu (step_spinner s) = mu s"
  by (simp add: step_spinner_def mu_def)

lemma step_mu_le:
  assumes "pc s \<noteq> Exited"
  shows "mu (step env a s) \<le> mu s"
proof (cases a)
  case Producer
  show ?thesis
  proof (cases "enP s")
    case True
    from producer_progress [OF True assms] Producer show ?thesis by simp
  next
    case False
    from producer_blocked [OF False] Producer show ?thesis by simp
  qed
next
  case Consumer
  show ?thesis
  proof (cases "blockedC s")
    case True
    from consumer_blocked [OF True] Consumer show ?thesis by simp
  next
    case False
    from consumer_progress [OF False, of env] Consumer show ?thesis by simp
  qed
next
  case Spinner
  then show ?thesis by (simp add: spinner_mu)
qed

lemma reach_Exited_exec:
  assumes "reach env S R B s" "pc s = Exited"
  shows "exec env sched s = s"
proof -
  from assms have "final env S R B s" by (auto simp: reach_def running_def ctl_def)
  then have "pc s = Exited" "exit_code s \<noteq> None" by (simp_all add: final_def exited_def)
  then show ?thesis by (rule exited_exec)
qed

lemma rounds_from_done:
  "(p \<or> a = Producer) \<and> (c \<or> a = Consumer) \<Longrightarrow>
   rounds_from p c (a # sched) = Suc (rounds_from False False sched)"
  unfolding rounds_from.simps by (rule if_P)

lemma rounds_from_open:
  "\<not> ((p \<or> a = Producer) \<and> (c \<or> a = Consumer)) \<Longrightarrow>
   rounds_from p c (a # sched) = rounds_from (p \<or> a = Producer) (c \<or> a = Consumer) sched"
  unfolding rounds_from.simps by (rule if_not_P)

lemma fair_progress:
  assumes "reach env S R B s"
    and "paid \<or> ((p \<longrightarrow> \<not> enP s) \<and> (c \<longrightarrow> blockedC s))"
    and "pc (exec env sched s) \<noteq> Exited"
  shows "mu (exec env sched s) + rounds_from p c sched \<le> mu s + (if paid then 1 else 0)"
  using assms
proof (induction sched arbitrary: s p c paid)
  case Nil
  then show ?case by simp
next
  case (Cons a sched)
  define s' where "s' = step env a s"
  define p' where "p' = (p \<or> a = Producer)"
  define c' where "c' = (c \<or> a = Consumer)"
  have ne: "pc s \<noteq> Exited"
  proof
    assume e: "pc s = Exited"
    from reach_Exited_exec [OF Cons.prems(1) e, of "a # sched"] have "exec env (a # sched) s = s" .
    with e Cons.prems(3) show False by (simp del: exec.simps)
  qed
  with Cons.prems(1) have run: "running S R B s"
    by (auto simp: reach_def final_def exited_def)
  have reach': "reach env S R B s'" unfolding s'_def by (rule reach_step [OF Cons.prems(1)])
  have le: "mu s' \<le> mu s" unfolding s'_def by (rule step_mu_le [OF ne])
  have end': "pc (exec env sched s') \<noteq> Exited" using Cons.prems(3) by (simp add: s'_def)
  have idle: "mu s' < mu s \<or> ((p' \<longrightarrow> \<not> enP s') \<and> (c' \<longrightarrow> blockedC s'))"
    if np: "\<not> paid"
  proof (cases "mu s' < mu s")
    case True
    then show ?thesis by simp
  next
    case False
    from np Cons.prems(2) have old: "p \<longrightarrow> \<not> enP s" "c \<longrightarrow> blockedC s" by simp_all
    show ?thesis
    proof (cases a)
      case Producer
      with False producer_progress [OF _ ne] have b: "\<not> enP s" by (auto simp: s'_def)
      from producer_blocked [OF b] Producer have "s' = s" by (simp add: s'_def)
      with b old Producer show ?thesis by (simp add: p'_def c'_def)
    next
      case Consumer
      with False consumer_progress [of s env] have b: "blockedC s" by (auto simp: s'_def)
      from consumer_blocked [OF b] Consumer have "s' = s" by (simp add: s'_def)
      with b old Consumer show ?thesis by (simp add: p'_def c'_def)
    next
      case Spinner
      then have "enP s' = enP s" "blockedC s' = blockedC s"
        by (simp_all add: s'_def spinner_enP spinner_blockedC)
      with old Spinner show ?thesis by (simp add: p'_def c'_def)
    qed
  qed
  show ?case
  proof (cases "p' \<and> c'")
    case True
    have "mu (exec env sched s') + rounds_from False False sched \<le> mu s' + (if False then 1 else 0)"
      by (rule Cons.IH [OF reach' _ end']) simp
    then have ih: "mu (exec env sched s') + rounds_from False False sched \<le> mu s'" by simp
    have dec: "mu s' < mu s" if np: "\<not> paid"
    proof -
      from idle [OF np] show ?thesis
      proof
        assume "(p' \<longrightarrow> \<not> enP s') \<and> (c' \<longrightarrow> blockedC s')"
        with True have st: "\<not> enP s'" "blockedC s'" by simp_all
        from end' reach_Exited_exec [OF reach'] have "pc s' \<noteq> Exited" by auto
        with reach' have "running S R B s'" by (auto simp: reach_def final_def exited_def)
        from no_deadlock [OF this st(2)] st(1) show ?thesis by simp
      qed simp
    qed
    from True have "rounds_from p c (a # sched) = Suc (rounds_from False False sched)"
      unfolding p'_def c'_def by (rule rounds_from_done)
    with ih le dec show ?thesis by (auto simp: s'_def split: if_splits)
  next
    case False
    define paid' where "paid' = (paid \<or> mu s' < mu s)"
    have pre: "paid' \<or> ((p' \<longrightarrow> \<not> enP s') \<and> (c' \<longrightarrow> blockedC s'))"
      using idle by (auto simp: paid'_def)
    have ih: "mu (exec env sched s') + rounds_from p' c' sched \<le> mu s' + (if paid' then 1 else 0)"
      by (rule Cons.IH [OF reach' pre end'])
    from False have "rounds_from p c (a # sched) = rounds_from p' c' sched"
      unfolding p'_def c'_def by (rule rounds_from_open)
    with ih le show ?thesis by (auto simp: s'_def paid'_def split: if_splits)
  qed
qed

lemma fair_termination:
  assumes "reach env S R B s" "mu s \<le> rounds sched"
  shows "pc (exec env sched s) = Exited"
proof (rule ccontr)
  assume ne: "pc (exec env sched s) \<noteq> Exited"
  have "mu (exec env sched s) + rounds_from False False sched \<le> mu s + (if False then 1 else 0)"
    by (rule fair_progress [OF assms(1) _ ne]) simp
  with assms(2) mu_pos [OF ne] show False by (simp add: rounds_def)
qed

lemma rounds_round_robin: "rounds (round_robin n) = n"
  by (induction n) (simp_all add: rounds_def)

section \<open>Runs of the program\<close>

lemma started_fields [simp]:
  "to_send (started env d B) = snd (scan env d)"
  "walk_ret (started env d B) = fst (scan env d)"
  "batchSize (started env d B) = B"
  "pc (started env d B) = Alloc"
  by (simp_all add: started_def blank_def)

lemma mu_started: "mu (started env d B) = 8 * length (snd (scan env d)) + 9"
  by (simp add: mu_def started_def blank_def)

lemma main_reach:
  assumes "exit_code (main_start env prog argv) = None"
  shows "reach env (to_send (main_start env prog argv)) (walk_ret (main_start env prog argv))
    (batchSize (main_start env prog argv)) (exec env sched (main_start env prog argv))"
proof -
  from assms obtain dirPath where
    st: "main_start env prog argv = started env dirPath (batchSize (main_start env prog argv))"
    and run: "running (snd (scan env dirPath)) (fst (scan env dirPath))
       (batchSize (main_start env prog argv)) (main_start env prog argv)"
    by (rule main_start_running)
  have "to_send (main_start env prog argv) = snd (scan env dirPath)"
    "walk_ret (main_start env prog argv) = fst (scan env dirPath)"
    by (subst st, simp)+
  with run have "reach env (to_send (main_start env prog argv))
      (walk_ret (main_start env prog argv)) (batchSize (main_start env prog argv))
      (main_start env prog argv)"
    by (simp add: reach_def)
  then show ?thesis by (rule reach_exec)
qed

lemma main_rejected:
  assumes "argv = [] \<or> parse_batch_size (tl argv) = None \<or> os_Stat env (hd argv) \<noteq> Inr True"
  obtains msg where "main_start env prog argv = die msg blank"
    "msg = Usage prog \<or> msg = BadBatchSize \<or> (\<exists>err. msg = ErrAccess err) \<or>
     msg = NotDirectory (hd argv)"
proof (cases rule: main_start_cases [where argv = argv and env = env and prog = prog])
  case (started dirPath rest B)
  with assms show ?thesis by simp
next
  case usage
  then show ?thesis by (intro that [of "Usage prog"]) simp_all
next
  case (batch dirPath rest)
  then show ?thesis by (intro that [of BadBatchSize]) simp_all
next
  case (access dirPath rest err)
  then show ?thesis by (intro that [of "ErrAccess err"]) simp_all
next
  case (notdir dirPath rest)
  then show ?thesis by (intro that [of "NotDirectory (hd argv)"]) simp_all
next
  case (create dirPath rest B err)
  with assms show ?thesis by simp
next
  case (header dirPath rest B err)
  with assms show ?thesis by simp
qed

lemma scan_events:
  assumes "after_Create env dirPath = Inr root"
  shows "scan env dirPath =
    (first_failure (events (Join env) dirPath root),
     found_before (events (Join env) dirPath root))"
  using assms by (simp add: scan_def WalkDir_def walkDir_scan_cb)

lemma final_clean:
  assumes "final env S R B s" "\<forall>n. flush_error env n = None" "makeslice_ok B"
  shows "ok_exit env S s \<or> walk_exit S s"
proof -
  from assms(1) have b: "batchSize s = B" by (simp add: final_def exited_def)
  from assms(2) have "\<not> write_exit env S s" by (simp add: write_exit_def)
  moreover from assms(3) b have "\<not> panic_exit s" by (simp add: panic_exit_def)
  ultimately show ?thesis using assms(1) by (auto simp: final_def)
qed

lemma exited_rows:
  assumes "exited R B s"
  shows "tl (outputFile s) = concat (writes s)"
proof -
  from assms have f: "outputFile s @ wbuf s = header # concat (writes s)"
    "wbuf s = [] \<or> wbuf s = [header] \<and> outputFile s = []"
    by (simp_all add: exited_def)
  from f(2) show ?thesis
  proof
    assume "wbuf s = []"
    with f(1) show ?thesis by simp
  next
    assume "wbuf s = [header] \<and> outputFile s = []"
    with f(1) show ?thesis by simp
  qed
qed

lemma running_rows:
  assumes "data S s"
  shows "tl (outputFile s) = concat (writes s)"
proof -
  from assms have "outputFile s = (if writes s = [] then [] else header # concat (writes s))"
    unfolding data_def by blast
  then show ?thesis by (cases "writes s = []") simp_all
qed

lemma reach_rows:
  assumes "reach env S R B s"
  shows "tl (outputFile s) = concat (writes s)"
  using assms running_rows exited_rows
  by (auto simp: reach_def running_def final_def)

lemma prefix_of_map_take:
  assumes "xs @ ys = map f (take n S)"
  shows "xs = map f (take (length xs) S)"
proof -
  have "length xs \<le> n"
  proof -
    have "length (xs @ ys) \<le> n" unfolding assms by simp
    then show ?thesis by simp
  qed
  have "xs = take (length xs) (xs @ ys)" by simp
  also have "\<dots> = map f (take (length xs) (take n S))" unfolding assms by (simp add: take_map)
  also have "take (length xs) (take n S) = take (length xs) S"
    using \<open>length xs \<le> n\<close> by (simp add: min_absorb1)
  finally show ?thesis .
qed

lemma reach_written:
  assumes "reach env S R B s"
  shows "concat (writes s) = map record_of (take (length (concat (writes s))) S)"
proof (cases "running S R B s")
  case True
  then have "concat (writes s) @ (unflushed_at (pc s) (batch s) @
      held_at (pc s) (curPath s) (pathLength s)) = map record_of (take (popped s) S)"
    by (simp add: running_def data_def)
  then show ?thesis by (rule prefix_of_map_take)
next
  case False
  with assms have f: "final env S R B s" by (simp add: reach_def)
  then consider "ok_exit env S s" | "walk_exit S s" | "write_exit env S s" | "panic_exit s"
    by (auto simp: final_def)
  then show ?thesis
  proof cases
    case 1
    then have "concat (writes s) = map record_of S" by (simp add: ok_exit_def)
    then have "concat (writes s) @ [] = map record_of (take (length S) S)" by simp
    then show ?thesis by (rule prefix_of_map_take)
  next
    case 2
    then have "concat (writes s) = map record_of S" by (simp add: walk_exit_def)
    then have "concat (writes s) @ [] = map record_of (take (length S) S)" by simp
    then show ?thesis by (rule prefix_of_map_take)
  next
    case 3
    then have "concat (writes s) @ batch s = map record_of (take (popped s) S)"
      by (simp add: write_exit_def)
    then show ?thesis by (rule prefix_of_map_take)
  next
    case 4
    then show ?thesis by (simp add: panic_exit_def)
  qed
qed

lemma main_not_started:
  assumes "exit_code (main_start env prog argv) \<noteq> None"
  shows "exec env sched (main_start env prog argv) = main_start env prog argv"
    "outputFile (main_start env prog argv) = []" "writes (main_start env prog argv) = []"
    "fileCount (main_start env prog argv) = 0" "display (main_start env prog argv) = []"
    "pc (main_start env prog argv) = Exited" "popped (main_start env prog argv) = 0"
    "ppc (main_start env prog argv) = Idle" "pathChan (main_start env prog argv) = []"
proof -
  have "\<exists>msg s. main_start env prog argv = die msg s \<and> (s = blank \<or> s = blank\<lparr> created := True \<rparr>)"
  proof (cases rule: main_start_cases [where argv = argv and env = env and prog = prog])
    case (started dirPath rest B)
    with assms show ?thesis by simp
  qed blast+
  then obtain msg s where eq: "main_start env prog argv = die msg s"
    and s: "s = blank \<or> s = blank\<lparr> created := True \<rparr>"
    by blast
  have "exec env sched (die msg s) = die msg s"
    by (rule exited_exec) (simp_all add: die_def)
  then show "exec env sched (main_start env prog argv) = main_start env prog argv"
    unfolding eq .
  from s show "outputFile (main_start env prog argv) = []"
    "writes (main_start env prog argv) = []"
    "fileCount (main_start env prog argv) = 0" "display (main_start env prog argv) = []"
    "pc (main_start env prog argv) = Exited" "popped (main_start env prog argv) = 0"
    "ppc (main_start env prog argv) = Idle" "pathChan (main_start env prog argv) = []"
    unfolding eq by (auto simp: die_def blank_def)
qed

lemma exec_append: "exec env (xs @ ys) s = exec env ys (exec env xs s)"
  by (induction xs arbitrary: s) simp_all

lemma reach_chan:
  assumes "reach env S R B s" "exit_code s = None"
  shows "chan S R s"
  using assms by (auto simp: reach_def running_def final_def exited_def)

lemma started_terminates:
  assumes "exit_code (main_start env prog argv) = None"
    and "8 * length (to_send (main_start env prog argv)) + 9 \<le> rounds sched"
  shows "pc (exec env sched (main_start env prog argv)) = Exited"
    "final env (to_send (main_start env prog argv)) (walk_ret (main_start env prog argv))
       (batchSize (main_start env prog argv)) (exec env sched (main_start env prog argv))"
proof -
  let ?init = "main_start env prog argv"
  from assms(1) obtain dirPath where
    st: "?init = started env dirPath (batchSize ?init)"
    by (rule main_start_running)
  have m: "mu ?init = 8 * length (to_send ?init) + 9"
    by (subst (1 2) st) (simp add: mu_started)
  note r = main_reach [OF assms(1), of "[]", simplified]
  from fair_termination [OF r] m assms(2)
  show e: "pc (exec env sched ?init) = Exited" by simp
  from main_reach [OF assms(1), of sched] e
  show "final env (to_send ?init) (walk_ret ?init) (batchSize ?init) (exec env sched ?init)"
    by (auto simp: reach_def running_def ctl_def)
qed

lemma exit_code_reach:
  assumes "reach env S R B s" "exit_code s \<noteq> None"
  shows "final env S R B s"
  using assms by (auto simp: reach_def running_def ctl_def)

lemma file_grows_step: "\<exists>ys. outputFile (step env a s) = outputFile s @ ys"
proof (cases a)
  case Producer
  then show ?thesis by (cases s rule: step_producer_cases) simp_all
next
  case Spinner
  then show ?thesis by (simp add: step_spinner_def)
next
  case Consumer
  have d: "\<exists>ys. outputFile (run_deferred env t) = outputFile t @ ys" for t :: "'a state"
    by (simp add: run_deferred_def split: option.splits)
  have w: "\<exists>ys. outputFile (case WriteAll env b s of Inl err \<Rightarrow> die (m err) s
      | Inr s' \<Rightarrow> s'\<lparr> pc := c \<rparr>) = outputFile s @ ys" for b m c
    by (simp add: WriteAll_def die_def split: option.splits)
  show ?thesis
  proof (cases "pc s")
    case Alloc
    with Consumer d [of s] show ?thesis by (simp add: step_consumer_def panic_def)
  next
    case Recv
    with Consumer show ?thesis
      by (simp add: step_consumer_def Let_def split: list.splits)
  next
    case WriteBatch
    with Consumer w [where b = "batch s" and m = ErrBatch and c = Count] show ?thesis by (simp add: step_consumer_def)
  next
    case FinalWrite
    with Consumer w [where b = "batch s" and m = ErrFinalBatch and c = FinalCount] show ?thesis
      by (simp add: step_consumer_def)
  next
    case Report
    with Consumer d [of "s\<lparr> stdout := stdout s @ [Done (fileCount s), Created] \<rparr>"]
    show ?thesis by (simp add: step_consumer_def die_def split: option.splits)
  qed (use Consumer in \<open>simp_all add: step_consumer_def\<close>)
qed

lemma file_grows: "\<exists>ys. outputFile (exec env sched s) = outputFile s @ ys"
proof (induction sched arbitrary: s)
  case Nil
  show ?case by simp
next
  case (Cons a sched)
  from file_grows_step [of env a s] obtain ys where "outputFile (step env a s) = outputFile s @ ys"
    by blast
  moreover from Cons [of "step env a s"] obtain zs where
    "outputFile (exec env sched (step env a s)) = outputFile (step env a s) @ zs"
    by blast
  ultimately show ?case by simp
qed

lemma walk_exit_file:
  assumes "exited R B s" "walk_exit S s"
  shows "tl (outputFile s) = map record_of S" "exit_code s = Some 1"
    "\<exists>e. walk_ret s = Some e \<and> stderr s = [ErrWalk e]"
    "closed s" "pathChan s = []" "to_send s = []" "popped s = length S"
  using assms exited_rows [OF assms(1)] by (simp_all add: walk_exit_def)

lemma ok_exit_file:
  assumes "exited R B s" "ok_exit env S s" "\<forall>n. flush_error env n = None"
  shows "outputFile s = header # map record_of S" "exit_code s = Some 0"
    "stdout s = [Done (int (length S)), Created]" "stderr s = []"
proof -
  from assms(2,3) have "wbuf s = []" by (auto simp: ok_exit_def)
  moreover from assms(1) have "outputFile s @ wbuf s = header # concat (writes s)"
    by (simp add: exited_def)
  moreover from assms(2) have "concat (writes s) = map record_of S" by (simp add: ok_exit_def)
  ultimately show "outputFile s = header # map record_of S" by simp
  from assms(2) show "exit_code s = Some 0" "stdout s = [Done (int (length S)), Created]"
    "stderr s = []"
    by (simp_all add: ok_exit_def)
qed








lemma created_below_absent:
  "map_of es n = None \<Longrightarrow> created_below name n ns es = es"
  by (induction es) (auto split: if_splits)







lemma chunks_Nil [simp]: "chunks n [] = []"
  by (simp add: chunks.simps)

lemma chunks_concat:
  assumes "well_chunked B ws" "0 < B"
  shows "chunks (nat B) (concat ws) = ws"
  using assms(1)
proof (induction ws)
  case Nil
  show ?case by simp
next
  case (Cons w ws)
  from assms(2) have n: "nat B \<noteq> 0" by simp
  show ?case
  proof (cases "ws = []")
    case True
    with Cons.prems have w: "w \<noteq> []" "int (length w) \<le> B" by (simp_all add: well_chunked_def)
    then have "length w \<le> nat B" by simp
    with w(1) n True show ?thesis by (simp add: chunks.simps [of _ w])
  next
    case False
    with Cons.prems have w: "int (length w) = B" and r: "well_chunked B ws"
      by (simp_all add: well_chunked_def all_full_def)
    from w assms(2) have l: "length w = nat B" "w \<noteq> []" by auto
    from Cons.IH [OF r] l n show ?thesis by (simp add: chunks.simps [of _ "w @ concat ws"])
  qed
qed

lemma log_ok_well_chunked:
  assumes "log_ok B c b ws" "0 < B"
  shows "well_chunked B ws"
proof -
  from assms(1) have "ws = [] \<or> all_full B ws \<or> well_chunked B ws" by (cases c) simp_all
  with all_full_well_chunked [OF _ assms(2)] show ?thesis by (auto simp: well_chunked_def)
qed

lemma reach_well_chunked:
  assumes "reach env S R B s"
  shows "well_chunked B (writes s)" "0 < B"
proof -
  show b: "0 < B" using assms by (auto simp: reach_def running_def ctl_def final_def exited_def)
  show "well_chunked B (writes s)"
  proof (cases "running S R B s")
    case True
    from shapeD(2) [OF runningD(4) [OF True]] b show ?thesis by (rule log_ok_well_chunked)
  next
    case False
    with assms show ?thesis by (simp add: reach_def final_def exited_def)
  qed
qed

lemma reach_batch:
  assumes "reach env S R B s"
  shows "pc s = Recv \<longrightarrow> int (length (batch s)) < B"
    "pc s = Alloc \<longrightarrow> batch s = []"
    "pc s = WriteBatch \<or> pc s = Count \<or> pc s = Reset \<longrightarrow> int (length (batch s)) = B"
    "pc s = FinalWrite \<or> pc s = FinalCount \<longrightarrow>
       batch s \<noteq> [] \<and> int (length (batch s)) < B \<and> closed s \<and> pathChan s = []"
    "pc s = Count \<or> pc s = FinalCount \<longrightarrow> writes s \<noteq> [] \<and> last (writes s) = batch s"
    "pc s = Len \<or> pc s = Append \<or> pc s = FinalTest \<longrightarrow> int (length (batch s)) < B"
    "pc s = Test \<longrightarrow> batch s \<noteq> [] \<and> int (length (batch s)) \<le> B"
    "pc s = FinalTest \<longrightarrow> closed s \<and> pathChan s = []"
    "pc s = Stop \<or> pc s = Report \<longrightarrow> int (length (batch s)) < B"
proof -
  have "pc s = Exited" if "\<not> running S R B s"
    using that assms by (simp add: reach_def final_def exited_def)
  moreover have "batch_ok B (pc s) (batch s) \<and> log_ok B (pc s) (batch s) (writes s) \<and>
      eos_ok (pc s) (closed s) (pathChan s)" if "running S R B s"
    using that by (simp add: running_def shape_def chan_def)
  ultimately have "pc s = Exited \<or> batch_ok B (pc s) (batch s) \<and>
      log_ok B (pc s) (batch s) (writes s) \<and> eos_ok (pc s) (closed s) (pathChan s)"
    by blast
  then show "pc s = Recv \<longrightarrow> int (length (batch s)) < B"
    "pc s = Alloc \<longrightarrow> batch s = []"
    "pc s = WriteBatch \<or> pc s = Count \<or> pc s = Reset \<longrightarrow> int (length (batch s)) = B"
    "pc s = FinalWrite \<or> pc s = FinalCount \<longrightarrow>
       batch s \<noteq> [] \<and> int (length (batch s)) < B \<and> closed s \<and> pathChan s = []"
    "pc s = Count \<or> pc s = FinalCount \<longrightarrow> writes s \<noteq> [] \<and> last (writes s) = batch s"
    "pc s = Len \<or> pc s = Append \<or> pc s = FinalTest \<longrightarrow> int (length (batch s)) < B"
    "pc s = Test \<longrightarrow> batch s \<noteq> [] \<and> int (length (batch s)) \<le> B"
    "pc s = FinalTest \<longrightarrow> closed s \<and> pathChan s = []"
    "pc s = Stop \<or> pc s = Report \<longrightarrow> int (length (batch s)) < B"
    by auto
qed

lemma lag_at_if:
  "lag_at c b = (if c = Count \<or> c = FinalCount then int (length b) else 0)"
  by (cases c) simp_all

lemma fileCount_producer: "fileCount (step_producer s) = fileCount s"
  by (cases s rule: step_producer_cases) simp_all

lemma fileCount_spinner: "fileCount (step_spinner s) = fileCount s"
  by (simp add: step_spinner_def)

lemma fileCount_consumer:
  "fileCount (step_consumer env s) =
     fileCount s + (if pc s = Count \<or> pc s = FinalCount then int (length (batch s)) else 0)"
proof -
  have d: "fileCount (run_deferred env t) = fileCount t" for t :: "'a state"
    by (simp add: run_deferred_def split: option.splits)
  have w: "fileCount (case WriteAll env b s of Inl err \<Rightarrow> die (m err) s
      | Inr s' \<Rightarrow> s'\<lparr> pc := c \<rparr>) = fileCount s" for b m c
    by (simp add: WriteAll_def die_def split: option.splits)
  show ?thesis
  proof (cases "pc s")
    case Alloc
    with d [of s] show ?thesis by (simp add: step_consumer_def panic_def)
  next
    case Recv
    then show ?thesis by (simp add: step_consumer_def Let_def split: list.splits)
  next
    case WriteBatch
    with w [where b = "batch s" and m = ErrBatch and c = Count] show ?thesis
      by (simp add: step_consumer_def)
  next
    case FinalWrite
    with w [where b = "batch s" and m = ErrFinalBatch and c = FinalCount] show ?thesis
      by (simp add: step_consumer_def)
  next
    case Report
    with d [of "s\<lparr> stdout := stdout s @ [Done (fileCount s), Created] \<rparr>"]
    show ?thesis by (simp add: step_consumer_def die_def split: option.splits)
  qed (simp_all add: step_consumer_def)
qed

lemma reach_count:
  assumes "reach env S R B s"
  shows "fileCount s + (if pc s = Count \<or> pc s = FinalCount then int (length (batch s)) else 0)
    = int (length (tl (outputFile s)))"
proof (cases "running S R B s")
  case True
  then have "fileCount s + lag_at (pc s) (batch s) = int (length (concat (writes s)))"
    by (simp add: running_def data_def)
  with reach_rows [OF assms] show ?thesis by (simp add: lag_at_if)
next
  case False
  with assms have "exited R B s" by (simp add: reach_def final_def)
  then have "pc s = Exited" "fileCount s = int (length (concat (writes s)))"
    by (simp_all add: exited_def)
  with reach_rows [OF assms] show ?thesis by simp
qed

lemma reach_disp:
  assumes "reach env S R B s"
  shows "disp s"
  using assms by (auto simp: reach_def running_def final_def exited_def)

lemma running_popped:
  assumes "running S R B s"
  shows "int (popped s) = fileCount s + lag_at (pc s) (batch s) +
    int (length (unflushed_at (pc s) (batch s))) +
    int (length (held_at (pc s) (curPath s) (pathLength s)))"
    "length (concat (writes s)) \<le> length S"
proof -
  let ?u = "unflushed_at (pc s) (batch s)"
  let ?h = "held_at (pc s) (curPath s) (pathLength s)"
  from assms have d: "concat (writes s) @ ?u @ ?h = map record_of (take (popped s) S)"
    "fileCount s + lag_at (pc s) (batch s) = int (length (concat (writes s)))"
    by (simp_all add: running_def data_def)
  from assms have p: "popped s \<le> length S" by (simp add: running_def chan_def)
  from d(1) have "length (concat (writes s) @ ?u @ ?h) =
      length (map record_of (take (popped s) S))"
    by simp
  with p have l: "length (concat (writes s)) + length ?u + length ?h = popped s"
    by simp
  with d(2) show "int (popped s) = fileCount s + lag_at (pc s) (batch s) +
      int (length ?u) + int (length ?h)"
    by simp
  from l p show "length (concat (writes s)) \<le> length S" by simp
qed

lemma all_full_concat:
  assumes "all_full B ws" "ws \<noteq> []"
  shows "B \<le> int (length (concat ws))"
proof -
  from assms(2) obtain w ws' where "ws = w # ws'" by (cases ws) auto
  with assms(1) show ?thesis by (simp add: all_full_def)
qed

lemma few_files:
  assumes r: "running S R B s" and few: "int (length S) < B"
  shows "pc s \<noteq> WriteBatch" "pc s \<noteq> Count" "pc s \<noteq> Reset"
    "pc s \<noteq> Stop \<and> pc s \<noteq> Report \<longrightarrow> fileCount s = 0"
proof -
  note lo = shapeD [OF runningD(4) [OF r]]
  note po = running_popped [OF r]
  from r have d: "fileCount s + lag_at (pc s) (batch s) = int (length (concat (writes s)))"
    by (simp add: running_def data_def)
  from r have p: "popped s \<le> length S" by (simp add: running_def chan_def)
  from r have ne: "pc s \<noteq> Exited" by (simp add: running_def ctl_def)
  have none: "writes s = []" if "all_full B (writes s)"
  proof (rule ccontr)
    assume "writes s \<noteq> []"
    from all_full_concat [OF that this] po(2) few show False by simp
  qed
  show "pc s \<noteq> WriteBatch"
  proof
    assume c: "pc s = WriteBatch"
    with lo(1) have "int (length (batch s)) = B" by simp
    with po(1) c d have "B \<le> int (popped s)" by simp
    with p few show False by simp
  qed
  show "pc s \<noteq> Count"
  proof
    assume c: "pc s = Count"
    with lo(2) have "all_full B (writes s)" "writes s \<noteq> []" by simp_all
    with none show False by simp
  qed
  show "pc s \<noteq> Reset"
  proof
    assume c: "pc s = Reset"
    with lo(2) have "all_full B (writes s)" "writes s \<noteq> []" by simp_all
    with none show False by simp
  qed
  show "pc s \<noteq> Stop \<and> pc s \<noteq> Report \<longrightarrow> fileCount s = 0"
  proof
    assume a: "pc s \<noteq> Stop \<and> pc s \<noteq> Report"
    show "fileCount s = 0"
    proof (cases "pc s = FinalCount")
      case False
      with a ne lo(2) have "all_full B (writes s) \<and> lag_at (pc s) (batch s) = 0 \<or>
          pc s = Count \<or> pc s = Reset"
        by (cases "pc s") simp_all
      with \<open>pc s \<noteq> Count\<close> \<open>pc s \<noteq> Reset\<close>
      have "all_full B (writes s)" "lag_at (pc s) (batch s) = 0" by simp_all
      from none [OF this(1)] d this(2) show ?thesis by simp
    next
      case fc: True
      with lo(2) have w: "well_chunked B (writes s)" "writes s \<noteq> []" "last (writes s) = batch s"
        by simp_all
      from w(1) have af: "all_full B (butlast (writes s))" by (simp add: well_chunked_def)
      have "butlast (writes s) = []"
      proof (rule ccontr)
        assume ne: "butlast (writes s) \<noteq> []"
        from concat_butlast_last [OF w(2)]
        have "length (concat (butlast (writes s))) \<le> length (concat (writes s))" by simp
        with all_full_concat [OF af ne] po(2) few show False by simp
      qed
      with concat_butlast_last [OF w(2)] w(3) have "concat (writes s) = batch s" by simp
      with d fc show ?thesis by simp
    qed
  qed
qed

lemma ended_file:
  assumes f: "final env S R B s" and fl: "\<forall>n. flush_error env n = None" and mk: "makeslice_ok B"
  shows "outputFile s =
      (if R = None \<or> S \<noteq> [] then header # map record_of S else [])"
    "exit_code s = Some (if R = None then 0 else 1)"
proof -
  from f have x: "exited R B s" "walk_ret s = R" by (simp_all add: final_def exited_def)
  from final_clean [OF f fl mk]
  have "outputFile s = (if R = None \<or> S \<noteq> [] then header # map record_of S else []) \<and>
      exit_code s = Some (if R = None then 0 else 1)"
  proof
    assume o: "ok_exit env S s"
    with x(2) have "R = None" by (simp add: ok_exit_def)
    with ok_exit_file(1,2) [OF x(1) o fl] show ?thesis by simp
  next
    assume w: "walk_exit S s"
    with x(2) have r: "R \<noteq> None" by (auto simp: walk_exit_def)
    from x(1) have "outputFile s @ wbuf s = header # concat (writes s)" by (simp add: exited_def)
    moreover from w have "wbuf s = (if S = [] then [header] else [])"
      "concat (writes s) = map record_of S" "exit_code s = Some 1"
      by (simp_all add: walk_exit_def)
    ultimately show ?thesis using r by (cases "S = []") simp_all
  qed
  then show "outputFile s =
      (if R = None \<or> S \<noteq> [] then header # map record_of S else [])"
    "exit_code s = Some (if R = None then 0 else 1)"
    by simp_all
qed

lemma main_start_scan:
  assumes "exit_code (main_start env prog (dirPath # rest)) = None"
  shows "to_send (main_start env prog (dirPath # rest)) = snd (scan env dirPath)"
    "walk_ret (main_start env prog (dirPath # rest)) = fst (scan env dirPath)"
proof -
  let ?init = "main_start env prog (dirPath # rest)"
  from assms obtain d' rest' where a: "dirPath # rest = d' # rest'"
    and st: "?init = started env d' (batchSize ?init)"
    by (rule main_start_running)
  from a have d: "d' = dirPath" by simp
  show "to_send ?init = snd (scan env dirPath)" "walk_ret ?init = fst (scan env dirPath)"
    by (subst st, simp add: d)+
qed

text \<open>
  For batch sizes the runtime can allocate a batch for, the batch size and the schedule do
  not matter: two runs on the same directory that have ended, with no write failing, have
  the same file and the same exit code.
\<close>

lemma batch_size_irrelevant:
  assumes "exit_code (main_start env prog (dirPath # rest1)) = None"
    and "exit_code (main_start env prog (dirPath # rest2)) = None"
    and "\<forall>n. flush_error env n = None"
    and "makeslice_ok (batchSize (main_start env prog (dirPath # rest1)))"
    and "makeslice_ok (batchSize (main_start env prog (dirPath # rest2)))"
    and "exit_code (exec env sched1 (main_start env prog (dirPath # rest1))) \<noteq> None"
    and "exit_code (exec env sched2 (main_start env prog (dirPath # rest2))) \<noteq> None"
  shows "outputFile (exec env sched1 (main_start env prog (dirPath # rest1))) =
      outputFile (exec env sched2 (main_start env prog (dirPath # rest2))) \<and>
    exit_code (exec env sched1 (main_start env prog (dirPath # rest1))) =
      exit_code (exec env sched2 (main_start env prog (dirPath # rest2)))"
proof -
  note f1 = exit_code_reach [OF main_reach [OF assms(1), of sched1] assms(6),
      unfolded main_start_scan [OF assms(1)]]
  note f2 = exit_code_reach [OF main_reach [OF assms(2), of sched2] assms(7),
      unfolded main_start_scan [OF assms(2)]]
  from ended_file [OF f1 assms(3,4)] ended_file [OF f2 assms(3,5)] show ?thesis by simp
qed

lemma events_entries_append:
  "events_entries J p (xs @ ys) = events_entries J p xs @ events_entries J p ys"
  by (induction xs) auto

lemma files_of_entries_mem:
  "(n, c) \<in> set es \<Longrightarrow> set (files_of J (J p n) c) \<subseteq> set (files_of_entries J p es)"
  by (induction es) auto

lemma not_dir_events:
  assumes "\<not> IsDir c"
  shows "events J p c = [Found p]" "files_of J p c = [p]"
  using assms by (cases c; simp)+

lemma link_found:
  "node_at ns d = Some c \<Longrightarrow> \<not> IsDir c \<Longrightarrow> foldl J p ns \<in> set (files_of J p d)"
proof (induction ns arbitrary: d p)
  case Nil
  then show ?case by (simp add: not_dir_events)
next
  case (Cons n ns)
  from Cons.prems(1) obtain es where d: "d = Dir es" by (cases d) simp_all
  with Cons.prems(1) obtain c' where c: "map_of es n = Some c'" "node_at ns c' = Some c"
    by (auto split: option.splits)
  from c(1) have "(n, c') \<in> set es" by (rule map_of_SomeD)
  from files_of_entries_mem [OF this] Cons.IH [OF c(2) Cons.prems(2), of "J p n"] show ?case
    by (auto simp: d)
qed

lemma record_of_inj: "record_of a = record_of b \<Longrightarrow> a = b"
  by (simp add: record_of_def)

lemma count_record:
  "distinct S \<Longrightarrow> x \<in> set S \<Longrightarrow> count_list (map record_of S) (record_of x) = 1"
proof (induction S)
  case Nil
  then show ?case by simp
next
  case (Cons y S)
  show ?case
  proof (cases "y = x")
    case True
    with Cons.prems have "x \<notin> set S" by simp
    then have "record_of x \<notin> set (map record_of S)" by (auto dest: record_of_inj)
    then have "count_list (map record_of S) (record_of x) = 0" by (simp add: count_list_0_iff)
    with True show ?thesis by simp
  next
    case False
    with Cons have "count_list (map record_of S) (record_of x) = 1" by simp
    moreover from False have "record_of y \<noteq> record_of x" by (auto dest: record_of_inj)
    ultimately show ?thesis by simp
  qed
qed

lemma reach_prefix:
  assumes "reach env S R B s"
  shows "\<exists>k. tl (outputFile s) = map record_of (take k S)"
  using reach_rows [OF assms] reach_written [OF assms] by metis

section \<open>The claims\<close>




text \<open>
  Claim C2. In every state of every run, each row of \<^verbatim>\<open>file_paths.csv\<close> after the header
  row has two fields, a path and the decimal numeral of the number of characters (bytes,
  Go's \<^verbatim>\<open>len\<close>) of that same path: the field is what \<^verbatim>\<open>strconv.Itoa\<close> gives for the
  length and, the length being in the range of \<^verbatim>\<open>int\<close>, it reads back as the length.
\<close>

theorem C2_path_length_field:
  "\<forall>r \<in> set (tl (outputFile (exec env sched (main_start env prog argv)))).
     \<exists>path. r = [path, Itoa (int (length path))] \<and>
       (int (length path) < 2 ^ 63 \<longrightarrow> Atoi (r ! 1) = Some (int (length path)))"
proof (cases "exit_code (main_start env prog argv) = None")
  case True
  let ?t = "exec env sched (main_start env prog argv)"
  note r = main_reach [OF True, of sched]
  from reach_rows [OF r] reach_written [OF r]
  have "tl (outputFile ?t) =
      map record_of (take (length (concat (writes ?t))) (to_send (main_start env prog argv)))"
    by simp
  then have "\<forall>r \<in> set (tl (outputFile ?t)). \<exists>path. r = record_of path" by auto
  moreover have "record_of path = [path, Itoa (int (length path))] \<and>
      (int (length path) < 2 ^ 63 \<longrightarrow> Atoi (record_of path ! 1) = Some (int (length path)))"
    for path
    by (simp add: record_of_def Atoi_Itoa)
  ultimately show ?thesis by metis
next
  case False
  from main_not_started(1,2) [OF False] show ?thesis by simp
qed

theorem C2_witness:
  "[''/tmp/a/l'', ''8''] \<in> set (tl (outputFile (exec env_a (round_robin 12)
      (main_start env_a ''scan'' [''/tmp/a'', ''2''])))) \<and>
   (\<exists>path. [''/tmp/a/l'', ''8''] = [path, Itoa (int (length path))])"
proof -
  have e: "outputFile (exec env_a (round_robin 12)
      (main_start env_a ''scan'' [''/tmp/a'', ''2''])) =
     [[''file_path'', ''path_length''], [''/tmp/a/b/y.txt'', ''14''], [''/tmp/a/l'', ''8'']]"
    by code_simp
  then have m: "[''/tmp/a/l'', ''8''] \<in> set (tl (outputFile (exec env_a (round_robin 12)
      (main_start env_a ''scan'' [''/tmp/a'', ''2'']))))"
    by simp
  from C2_path_length_field [of env_a "round_robin 12" "''scan''" "[''/tmp/a'', ''2'']"] m
  show ?thesis by blast
qed

text \<open>
  Claim C3 fails on the code for batch sizes too large to allocate. The argument
  \<^verbatim>\<open>9223372036854775807\<close> passes the check of line 28, and line 108 then panics: the run
  ends with exit code 2 and a file holding the header row alone, while the same directory
  scanned with batch size 100 gives exit code 0 and three data rows.
\<close>

theorem C3_huge_batch_size_panics:
  "parse_batch_size [''9223372036854775807''] = Some 9223372036854775807 \<and>
   exit_code (exec env_a (round_robin 20)
     (main_start env_a ''scan'' [''/tmp/a'', ''9223372036854775807''])) = Some 2 \<and>
   stderr (exec env_a (round_robin 20)
     (main_start env_a ''scan'' [''/tmp/a'', ''9223372036854775807''])) = [PanicMakeslice] \<and>
   outputFile (exec env_a (round_robin 20)
     (main_start env_a ''scan'' [''/tmp/a'', ''9223372036854775807''])) = [header] \<and>
   exit_code (exec env_a (round_robin 20)
     (main_start env_a ''scan'' [''/tmp/a'', ''100''])) = Some 0 \<and>
   outputFile (exec env_a (round_robin 20) (main_start env_a ''scan'' [''/tmp/a'', ''100''])) =
     [header, record_of ''/tmp/a/b/y.txt'', record_of ''/tmp/a/l'', record_of ''/tmp/a/x.txt'']"
  by code_simp

text \<open>
  Claim C4, as stated, fails: after the scanner has sent two paths and the main goroutine
  has received them and flushed them as a batch of two (line 114), and before the counter
  is updated (line 119), two records are in the file while \<^verbatim>\<open>fileCount\<close> is 0, and the
  spinner, taking its turn, prints 0.
\<close>

theorem C4_counterexample:
  "tl (outputFile (exec env_a sched_flushed (main_start env_a ''scan'' [''/tmp/a'', ''2'']))) =
     [[''/tmp/a/b/y.txt'', ''14''], [''/tmp/a/l'', ''8'']] \<and>
   fileCount (exec env_a sched_flushed (main_start env_a ''scan'' [''/tmp/a'', ''2''])) = 0 \<and>
   display (exec env_a sched_flushed (main_start env_a ''scan'' [''/tmp/a'', ''2''])) = [0]"
  by code_simp

text \<open>
  Claim C4, amended. In every state of every run: only a step of the main goroutine
  changes \<^verbatim>\<open>fileCount\<close>, and only the counting step that follows a flush does, adding
  the size of the batch just flushed; \<^verbatim>\<open>fileCount\<close> is the number of records in the file,
  except between a flush and its counting step, where it is lower by exactly the size of
  the batch just flushed; and every value the spinner has printed is at most the current
  \<^verbatim>\<open>fileCount\<close> and is the total size of the first k flushed batches for some k, so it
  never counts a record twice and never counts part of a batch.
\<close>

theorem C4_count_follows_flush:
  "fileCount (exec env sched (main_start env prog argv)) =
     int (length (tl (outputFile (exec env sched (main_start env prog argv))))) -
     (if pc (exec env sched (main_start env prog argv)) = Count \<or>
         pc (exec env sched (main_start env prog argv)) = FinalCount
      then int (length (batch (exec env sched (main_start env prog argv)))) else 0) \<and>
   (pc (exec env sched (main_start env prog argv)) = Count \<or>
    pc (exec env sched (main_start env prog argv)) = FinalCount \<longrightarrow>
      writes (exec env sched (main_start env prog argv)) \<noteq> [] \<and>
      last (writes (exec env sched (main_start env prog argv))) =
        batch (exec env sched (main_start env prog argv))) \<and>
   tl (outputFile (exec env sched (main_start env prog argv))) =
     concat (writes (exec env sched (main_start env prog argv))) \<and>
   (\<forall>c \<in> set (display (exec env sched (main_start env prog argv))).
      c \<le> fileCount (exec env sched (main_start env prog argv)) \<and>
      (\<exists>k \<le> length (writes (exec env sched (main_start env prog argv))).
         c = int (length (concat (take k
           (writes (exec env sched (main_start env prog argv)))))))) \<and>
   fileCount (step env Producer (exec env sched (main_start env prog argv))) =
     fileCount (exec env sched (main_start env prog argv)) \<and>
   fileCount (step env Spinner (exec env sched (main_start env prog argv))) =
     fileCount (exec env sched (main_start env prog argv)) \<and>
   fileCount (step env Consumer (exec env sched (main_start env prog argv))) =
     fileCount (exec env sched (main_start env prog argv)) +
     (if pc (exec env sched (main_start env prog argv)) = Count \<or>
         pc (exec env sched (main_start env prog argv)) = FinalCount
      then int (length (batch (exec env sched (main_start env prog argv)))) else 0)"
proof -
  let ?init = "main_start env prog argv"
  let ?t = "exec env sched ?init"
  have steps: "fileCount (step env Producer ?t) = fileCount ?t"
    "fileCount (step env Spinner ?t) = fileCount ?t"
    "fileCount (step env Consumer ?t) = fileCount ?t +
       (if pc ?t = Count \<or> pc ?t = FinalCount then int (length (batch ?t)) else 0)"
    by (simp_all add: fileCount_producer fileCount_spinner fileCount_consumer)
  have inv: "fileCount ?t = int (length (tl (outputFile ?t))) -
       (if pc ?t = Count \<or> pc ?t = FinalCount then int (length (batch ?t)) else 0) \<and>
     (pc ?t = Count \<or> pc ?t = FinalCount \<longrightarrow>
        writes ?t \<noteq> [] \<and> last (writes ?t) = batch ?t) \<and>
     tl (outputFile ?t) = concat (writes ?t) \<and>
     (\<forall>c \<in> set (display ?t). c \<le> fileCount ?t \<and>
        (\<exists>k \<le> length (writes ?t). c = int (length (concat (take k (writes ?t))))))"
  proof (cases "exit_code ?init = None")
    case True
    note r = main_reach [OF True, of sched]
    from reach_count [OF r] have "fileCount ?t = int (length (tl (outputFile ?t))) -
       (if pc ?t = Count \<or> pc ?t = FinalCount then int (length (batch ?t)) else 0)"
      by simp
    moreover note reach_batch(5) [OF r] reach_rows [OF r]
    moreover from reach_disp [OF r]
    have "\<forall>c \<in> set (display ?t). c \<le> fileCount ?t \<and>
        (\<exists>k \<le> length (writes ?t). c = int (length (concat (take k (writes ?t)))))"
      by (simp add: disp_def whole_batches_def)
    ultimately show ?thesis by blast
  next
    case False
    from main_not_started(1) [OF False, of sched] main_not_started(2-6) [OF False]
    show ?thesis by simp
  qed
  from inv steps show ?thesis by blast
qed

theorem C4_witness:
  "0 \<in> set (display (exec env_a sched_flushed (main_start env_a ''scan'' [''/tmp/a'', ''2'']))) \<and>
   pc (exec env_a sched_flushed (main_start env_a ''scan'' [''/tmp/a'', ''2''])) = Count \<and>
   fileCount (exec env_a sched_flushed (main_start env_a ''scan'' [''/tmp/a'', ''2''])) =
     int (length (tl (outputFile (exec env_a sched_flushed
       (main_start env_a ''scan'' [''/tmp/a'', ''2''])))))
     - int (length (batch (exec env_a sched_flushed
       (main_start env_a ''scan'' [''/tmp/a'', ''2''])))) \<and>
   0 \<le> fileCount (exec env_a sched_flushed (main_start env_a ''scan'' [''/tmp/a'', ''2'']))"
proof -
  let ?t = "exec env_a sched_flushed (main_start env_a ''scan'' [''/tmp/a'', ''2''])"
  have d: "0 \<in> set (display ?t)" by code_simp
  have p: "pc ?t = Count" by code_simp
  note t = C4_count_follows_flush [of env_a sched_flushed "''scan''" "[''/tmp/a'', ''2'']"]
  from t have 1: "fileCount ?t = int (length (tl (outputFile ?t))) -
     (if pc ?t = Count \<or> pc ?t = FinalCount then int (length (batch ?t)) else 0)"
    by (rule conjunct1)
  from t have 2: "\<forall>c \<in> set (display ?t). c \<le> fileCount ?t \<and>
      (\<exists>k \<le> length (writes ?t). c = int (length (concat (take k (writes ?t)))))"
    by blast
  from 1 p have "fileCount ?t = int (length (tl (outputFile ?t))) - int (length (batch ?t))"
    by (simp only: simp_thms if_True)
  moreover from 2 d have "0 \<le> fileCount ?t" by blast
  ultimately show ?thesis using d p by blast
qed

text \<open>
  Claim C5. In every state of a run that got past validation: at the head of the loop
  the batch holds fewer than \<^verbatim>\<open>batchSize\<close> records; the test of line 113, after an append,
  leads to the flush of line 114 exactly when the batch holds \<^verbatim>\<open>batchSize\<close> records, and
  that flush is due only with exactly \<^verbatim>\<open>batchSize\<close> records; the count that follows a
  flush is followed by the reset of line 120, which empties the batch; the final flush
  is due only after the channel is closed and empty, with a non-empty batch; no batch handed to \<^verbatim>\<open>WriteAll\<close> is empty or longer than \<^verbatim>\<open>batchSize\<close>;
  the rows of the file after the header are the records of the flushed batches, and the
  flushed batches are the consecutive groups of \<^verbatim>\<open>batchSize\<close> records of the paths
  received so far. When no write fails and the batch can be allocated, a run that has
  ended has flushed exactly the groups of \<^verbatim>\<open>batchSize\<close> records of all paths sent, the
  last group holding the remainder: every path was written once.
\<close>

theorem C5_batches_flushed_in_groups:
  assumes "exit_code (main_start env prog argv) = None"
  shows "(pc (exec env sched (main_start env prog argv)) = Recv \<longrightarrow>
       int (length (batch (exec env sched (main_start env prog argv)))) <
         batchSize (main_start env prog argv)) \<and>
    (pc (exec env sched (main_start env prog argv)) = WriteBatch \<longrightarrow>
       int (length (batch (exec env sched (main_start env prog argv)))) =
         batchSize (main_start env prog argv)) \<and>
    (pc (exec env sched (main_start env prog argv)) = Test \<longrightarrow>
       (pc (step env Consumer (exec env sched (main_start env prog argv))) = WriteBatch) =
         (int (length (batch (exec env sched (main_start env prog argv)))) =
            batchSize (main_start env prog argv)) \<and>
       (pc (step env Consumer (exec env sched (main_start env prog argv))) = Recv) =
         (int (length (batch (exec env sched (main_start env prog argv)))) <
            batchSize (main_start env prog argv))) \<and>
    (pc (exec env sched (main_start env prog argv)) = Count \<longrightarrow>
       pc (step env Consumer (exec env sched (main_start env prog argv))) = Reset \<and>
       batch (step env Consumer
         (step env Consumer (exec env sched (main_start env prog argv)))) = []) \<and>
    (pc (exec env sched (main_start env prog argv)) = Reset \<longrightarrow>
       batch (step env Consumer (exec env sched (main_start env prog argv))) = []) \<and>
    (pc (exec env sched (main_start env prog argv)) = FinalWrite \<longrightarrow>
       batch (exec env sched (main_start env prog argv)) \<noteq> [] \<and>
       closed (exec env sched (main_start env prog argv)) \<and>
       pathChan (exec env sched (main_start env prog argv)) = []) \<and>
    (\<forall>w \<in> set (writes (exec env sched (main_start env prog argv))).
       w \<noteq> [] \<and> int (length w) \<le> batchSize (main_start env prog argv)) \<and>
    tl (outputFile (exec env sched (main_start env prog argv))) =
      concat (writes (exec env sched (main_start env prog argv))) \<and>
    writes (exec env sched (main_start env prog argv)) =
      chunks (nat (batchSize (main_start env prog argv)))
        (map record_of
          (take (length (concat (writes (exec env sched (main_start env prog argv)))))
             (to_send (main_start env prog argv)))) \<and>
    ((\<forall>n. flush_error env n = None) \<and> makeslice_ok (batchSize (main_start env prog argv)) \<and>
     exit_code (exec env sched (main_start env prog argv)) \<noteq> None \<longrightarrow>
       writes (exec env sched (main_start env prog argv)) =
         chunks (nat (batchSize (main_start env prog argv)))
           (map record_of (to_send (main_start env prog argv))))"
proof -
  let ?init = "main_start env prog argv"
  let ?t = "exec env sched ?init"
  let ?B = "batchSize ?init"
  let ?S = "to_send ?init"
  note r = main_reach [OF assms, of sched]
  note wc = reach_well_chunked [OF r]
  note b = reach_batch [OF r]
  have bs: "batchSize ?t = ?B"
    using r by (auto simp: reach_def running_def ctl_def final_def exited_def)
  have 2: "(pc (step env Consumer ?t) = WriteBatch) = (int (length (batch ?t)) = ?B) \<and>
      (pc (step env Consumer ?t) = Recv) = (int (length (batch ?t)) < ?B)"
    if "pc ?t = Test"
    using that b(7) bs by (auto simp: step_consumer_def)
  have 3: "pc (step env Consumer ?t) = Reset \<and>
      batch (step env Consumer (step env Consumer ?t)) = []" if "pc ?t = Count"
    using that by (simp add: step_consumer_def)
  have 4: "batch (step env Consumer ?t) = []" if "pc ?t = Reset"
    using that by (simp add: step_consumer_def)
  have 5: "\<forall>w \<in> set (writes ?t). w \<noteq> [] \<and> int (length w) \<le> ?B"
    using well_chunked_nonempty [OF wc] by blast
  have 6: "tl (outputFile ?t) = concat (writes ?t)" by (rule reach_rows [OF r])
  have 7: "writes ?t = chunks (nat ?B) (map record_of (take (length (concat (writes ?t))) ?S))"
    using chunks_concat [OF wc] reach_written [OF r] by simp
  have 8: "writes ?t = chunks (nat ?B) (map record_of ?S)"
    if "\<forall>n. flush_error env n = None" "makeslice_ok ?B" "exit_code ?t \<noteq> None"
  proof -
    note f = exit_code_reach [OF r that(3)]
    from final_clean [OF f that(1,2)] have "concat (writes ?t) = map record_of ?S"
      by (auto simp: ok_exit_def walk_exit_def)
    with chunks_concat [OF wc] show ?thesis by simp
  qed
  from b(1,3,4) 2 3 4 5 6 7 8 show ?thesis by blast
qed

theorem C5_witness:
  "exit_code (main_start env_a ''scan'' [''/tmp/a'', ''2'']) = None \<and>
   (\<forall>n. flush_error env_a n = None) \<and>
   makeslice_ok (batchSize (main_start env_a ''scan'' [''/tmp/a'', ''2''])) \<and>
   exit_code (exec env_a (round_robin 33) (main_start env_a ''scan'' [''/tmp/a'', ''2''])) \<noteq>
     None \<and>
   writes (exec env_a (round_robin 33) (main_start env_a ''scan'' [''/tmp/a'', ''2''])) =
     [[[''/tmp/a/b/y.txt'', ''14''], [''/tmp/a/l'', ''8'']], [[''/tmp/a/x.txt'', ''12'']]]"
proof -
  have h1: "exit_code (main_start env_a ''scan'' [''/tmp/a'', ''2'']) = None" by code_simp
  have h2: "\<forall>n. flush_error env_a n = None" by (simp add: env_a_def)
  have h3: "makeslice_ok (batchSize (main_start env_a ''scan'' [''/tmp/a'', ''2'']))"
    by code_simp
  have h4: "exit_code (exec env_a (round_robin 33)
      (main_start env_a ''scan'' [''/tmp/a'', ''2''])) \<noteq> None"
    by code_simp
  have c: "chunks (nat (batchSize (main_start env_a ''scan'' [''/tmp/a'', ''2''])))
      (map record_of (to_send (main_start env_a ''scan'' [''/tmp/a'', ''2'']))) =
     [[[''/tmp/a/b/y.txt'', ''14''], [''/tmp/a/l'', ''8'']], [[''/tmp/a/x.txt'', ''12'']]]"
    by code_simp
  from C5_batches_flushed_in_groups [OF h1, of "round_robin 33"] h1 h2 h3 h4 c
  show ?thesis by simp
qed

text \<open>
  Claim C6. In a run that got past validation, the walk stops at the first error: with
  \<open>root\<close> the tree the walk finds at the directory, its result is the first failure met
  in depth-first order and the paths it sends are exactly the non-directory entries met
  before that failure. In every state of every run the
  paths still in the channel or still to be sent are the not yet received rest of that
  sequence, so nothing else is ever pushed; once the scanner has finished the channel is
  closed and \<^verbatim>\<open>scanErr\<close> holds the result of the walk, error or not. Every schedule with
  enough rounds (a round gives the scanner and the main goroutine a turn each) ends the
  process, and unless a write failed or the batch could not be allocated the main
  goroutine has then seen the channel closed and empty.
\<close>

theorem C6_abort_and_close:
  assumes "exit_code (main_start env prog (dirPath # rest)) = None"
    and "after_Create env dirPath = Inr root"
  shows "walk_ret (main_start env prog (dirPath # rest)) =
      first_failure (events (Join env) dirPath root) \<and>
    to_send (main_start env prog (dirPath # rest)) =
      found_before (events (Join env) dirPath root) \<and>
    (exit_code (exec env sched (main_start env prog (dirPath # rest))) = None \<longrightarrow>
       pathChan (exec env sched (main_start env prog (dirPath # rest))) @
       to_send (exec env sched (main_start env prog (dirPath # rest))) =
         drop (popped (exec env sched (main_start env prog (dirPath # rest))))
           (found_before (events (Join env) dirPath root)) \<and>
       (ppc (exec env sched (main_start env prog (dirPath # rest))) = Finished \<longrightarrow>
          closed (exec env sched (main_start env prog (dirPath # rest))) \<and>
          scanErr (exec env sched (main_start env prog (dirPath # rest))) =
            first_failure (events (Join env) dirPath root))) \<and>
    (8 * length (found_before (events (Join env) dirPath root)) + 9 \<le> rounds sched \<longrightarrow>
       exit_code (exec env sched (main_start env prog (dirPath # rest))) \<noteq> None \<and>
       ((\<forall>n. flush_error env n = None) \<and>
        makeslice_ok (batchSize (main_start env prog (dirPath # rest))) \<longrightarrow>
          closed (exec env sched (main_start env prog (dirPath # rest))) \<and>
          pathChan (exec env sched (main_start env prog (dirPath # rest))) = [] \<and>
          popped (exec env sched (main_start env prog (dirPath # rest))) =
            length (found_before (events (Join env) dirPath root)) \<and>
          scanErr (exec env sched (main_start env prog (dirPath # rest))) =
            first_failure (events (Join env) dirPath root)))"
proof -
  let ?init = "main_start env prog (dirPath # rest)"
  let ?s = "exec env sched ?init"
  let ?S = "found_before (events (Join env) dirPath root)"
  let ?R = "first_failure (events (Join env) dirPath root)"
  from assms(1) obtain d' rest' where a: "dirPath # rest = d' # rest'"
    and st: "?init = started env d' (batchSize ?init)"
    by (rule main_start_running)
  from a have d: "d' = dirPath" by simp
  have w: "walk_ret ?init = ?R" and t: "to_send ?init = ?S"
    by (subst st, simp add: d scan_events [OF assms(2)])+
  note r = main_reach [OF assms(1), of sched, unfolded w t]
  have run: "pathChan ?s @ to_send ?s = drop (popped ?s) ?S \<and>
      (ppc ?s = Finished \<longrightarrow> closed ?s \<and> scanErr ?s = ?R)"
    if "exit_code ?s = None"
  proof -
    from reach_chan [OF r that] show ?thesis unfolding chan_def by auto
  qed
  have fin: "exit_code ?s \<noteq> None \<and>
      ((\<forall>n. flush_error env n = None) \<and> makeslice_ok (batchSize ?init) \<longrightarrow>
         closed ?s \<and> pathChan ?s = [] \<and> popped ?s = length ?S \<and> scanErr ?s = ?R)"
    if "8 * length ?S + 9 \<le> rounds sched"
  proof -
    from that have "8 * length (to_send ?init) + 9 \<le> rounds sched" by (simp add: t)
    note f = started_terminates(2) [OF assms(1) this, unfolded w t]
    then have e: "exit_code ?s \<noteq> None" "walk_ret ?s = ?R"
      by (simp_all add: final_def exited_def)
    have "closed ?s \<and> pathChan ?s = [] \<and> popped ?s = length ?S \<and> scanErr ?s = ?R"
      if "\<forall>n. flush_error env n = None" "makeslice_ok (batchSize ?init)"
    proof -
      from final_clean [OF f that] show ?thesis
      proof
        assume o: "ok_exit env ?S ?s"
        with e(2) show ?thesis by (simp add: ok_exit_def)
      next
        assume "walk_exit ?S ?s"
        with e(2) show ?thesis by (simp add: walk_exit_def)
      qed
    qed
    with e(1) show ?thesis by blast
  qed
  from w t run fin show ?thesis by blast
qed

theorem C6_witness:
  "exit_code (main_start env_bad ''scan'' [''/srv'', ''2'']) = None \<and>
   after_Create env_bad ''/srv'' = Inr tree_bad \<and>
   walk_ret (main_start env_bad ''scan'' [''/srv'', ''2'']) = Some ''EACCES'' \<and>
   to_send (main_start env_bad ''scan'' [''/srv'', ''2'']) = [''/srv/a.txt''] \<and>
   closed (exec env_bad (round_robin 17) (main_start env_bad ''scan'' [''/srv'', ''2''])) \<and>
   scanErr (exec env_bad (round_robin 17) (main_start env_bad ''scan'' [''/srv'', ''2''])) =
     Some ''EACCES''"
proof -
  have h1: "exit_code (main_start env_bad ''scan'' [''/srv'', ''2'']) = None" by code_simp
  have h2: "after_Create env_bad ''/srv'' = Inr tree_bad"
    by (simp add: after_Create_def env_bad_def)
  have ev: "first_failure (events (Join env_bad) ''/srv'' tree_bad) = Some ''EACCES''"
    "found_before (events (Join env_bad) ''/srv'' tree_bad) = [''/srv/a.txt'']"
    by code_simp+
  have fl: "\<forall>n. flush_error env_bad n = None" by (simp add: env_bad_def)
  have mk: "makeslice_ok (batchSize (main_start env_bad ''scan'' [''/srv'', ''2'']))"
    by code_simp
  have rr: "rounds (round_robin 17) = 17" by (rule rounds_round_robin)
  from C6_abort_and_close [OF h1 h2, of "round_robin 17"] ev fl mk rr h1 h2
  show ?thesis by simp
qed

text \<open>
  Claim C7. In a run whose walk fails with an error (no write fails, the batch can be
  allocated): in no state does the traversal error stand on standard error unless the
  channel is closed and empty, every path the walk sent has been received and its row is
  in the file, and the process has exited with code 1; every schedule with enough rounds
  ends in that state, with the error as the only message; and rows once in the file stay
  there, whatever steps follow.
\<close>

theorem C7_error_after_drain:
  assumes "exit_code (main_start env prog argv) = None"
    and "walk_ret (main_start env prog argv) = Some err"
    and "\<forall>n. flush_error env n = None"
    and "makeslice_ok (batchSize (main_start env prog argv))"
  shows "(ErrWalk err \<in> set (stderr (exec env sched (main_start env prog argv))) \<longrightarrow>
       closed (exec env sched (main_start env prog argv)) \<and>
       pathChan (exec env sched (main_start env prog argv)) = [] \<and>
       popped (exec env sched (main_start env prog argv)) =
         length (to_send (main_start env prog argv)) \<and>
       tl (outputFile (exec env sched (main_start env prog argv))) =
         map record_of (to_send (main_start env prog argv)) \<and>
       exit_code (exec env sched (main_start env prog argv)) = Some 1) \<and>
    (8 * length (to_send (main_start env prog argv)) + 9 \<le> rounds sched \<longrightarrow>
       stderr (exec env sched (main_start env prog argv)) = [ErrWalk err] \<and>
       exit_code (exec env sched (main_start env prog argv)) = Some 1 \<and>
       tl (outputFile (exec env sched (main_start env prog argv))) =
         map record_of (to_send (main_start env prog argv))) \<and>
    (\<exists>ys. outputFile (exec env (sched @ later) (main_start env prog argv)) =
       outputFile (exec env sched (main_start env prog argv)) @ ys)"
proof -
  let ?init = "main_start env prog argv"
  let ?t = "exec env sched ?init"
  note r = main_reach [OF assms(1), of sched]
  have fin: "walk_exit (to_send ?init) ?t \<and> exited (walk_ret ?init) (batchSize ?init) ?t"
    if f: "final env (to_send ?init) (walk_ret ?init) (batchSize ?init) ?t"
  proof -
    from f have w: "walk_ret ?t = walk_ret ?init" by (simp add: final_def exited_def)
    from final_clean [OF f assms(3,4)] w assms(2) have "walk_exit (to_send ?init) ?t"
      by (auto simp: ok_exit_def)
    with f show ?thesis by (simp add: final_def)
  qed
  have a: "closed ?t \<and> pathChan ?t = [] \<and> popped ?t = length (to_send ?init) \<and>
      tl (outputFile ?t) = map record_of (to_send ?init) \<and> exit_code ?t = Some 1"
    if "ErrWalk err \<in> set (stderr ?t)"
  proof -
    from that r have "final env (to_send ?init) (walk_ret ?init) (batchSize ?init) ?t"
      by (auto simp: reach_def running_def ctl_def)
    from fin [OF this] walk_exit_file [of "walk_ret ?init" "batchSize ?init" ?t "to_send ?init"]
    show ?thesis by simp
  qed
  have b: "stderr ?t = [ErrWalk err] \<and> exit_code ?t = Some 1 \<and>
      tl (outputFile ?t) = map record_of (to_send ?init)"
    if "8 * length (to_send ?init) + 9 \<le> rounds sched"
  proof -
    note f = started_terminates(2) [OF assms(1) that]
    then have w: "walk_ret ?t = walk_ret ?init" by (simp add: final_def exited_def)
    from fin [OF f] walk_exit_file [of "walk_ret ?init" "batchSize ?init" ?t "to_send ?init"]
      w assms(2)
    show ?thesis by auto
  qed
  have c: "\<exists>ys. outputFile (exec env (sched @ later) ?init) = outputFile ?t @ ys"
    unfolding exec_append by (rule file_grows)
  from a b c show ?thesis by blast
qed

theorem C7_witness:
  "exit_code (main_start env_bad ''scan'' [''/srv'', ''2'']) = None \<and>
   walk_ret (main_start env_bad ''scan'' [''/srv'', ''2'']) = Some ''EACCES'' \<and>
   (\<forall>n. flush_error env_bad n = None) \<and>
   makeslice_ok (batchSize (main_start env_bad ''scan'' [''/srv'', ''2''])) \<and>
   stderr (exec env_bad (round_robin 17) (main_start env_bad ''scan'' [''/srv'', ''2''])) =
     [ErrWalk ''EACCES''] \<and>
   exit_code (exec env_bad (round_robin 17) (main_start env_bad ''scan'' [''/srv'', ''2''])) =
     Some 1 \<and>
   tl (outputFile (exec env_bad (round_robin 17)
     (main_start env_bad ''scan'' [''/srv'', ''2'']))) = [[''/srv/a.txt'', ''10'']]"
proof -
  have h1: "exit_code (main_start env_bad ''scan'' [''/srv'', ''2'']) = None" by code_simp
  have h2: "walk_ret (main_start env_bad ''scan'' [''/srv'', ''2'']) = Some ''EACCES''"
    by code_simp
  have h3: "\<forall>n. flush_error env_bad n = None" by (simp add: env_bad_def)
  have h4: "makeslice_ok (batchSize (main_start env_bad ''scan'' [''/srv'', ''2'']))"
    by code_simp
  have ts: "to_send (main_start env_bad ''scan'' [''/srv'', ''2'']) = [''/srv/a.txt'']"
    by code_simp
  have rc: "record_of ''/srv/a.txt'' = [''/srv/a.txt'', ''10'']" by code_simp
  have rr: "rounds (round_robin 17) = 17" by (rule rounds_round_robin)
  from C7_error_after_drain [OF h1 h2 h3 h4, of "round_robin 17" "[]"] ts rc rr h1 h2 h3 h4
  show ?thesis by simp
qed

text \<open>
  Claim C8. Arguments and the target path are checked before the output file is created:
  when there is no directory argument, when the batch size is not a positive integer, or
  when the path cannot be accessed or is not a directory, the process has exited with code
  1 and one message on standard error, \<^verbatim>\<open>file_paths.csv\<close> has been neither created nor
  truncated, and neither the spinner nor the scanner was started; no later step changes
  anything.
\<close>

theorem C8_validation_before_create:
  assumes "argv = [] \<or> parse_batch_size (tl argv) = None \<or> os_Stat env (hd argv) \<noteq> Inr True"
  shows "exit_code (main_start env prog argv) = Some 1 \<and>
    (\<exists>msg. stderr (main_start env prog argv) = [msg] \<and>
       (msg = Usage prog \<or> msg = BadBatchSize \<or> (\<exists>err. msg = ErrAccess err) \<or>
        msg = NotDirectory (hd argv))) \<and>
    \<not> created (main_start env prog argv) \<and> outputFile (main_start env prog argv) = [] \<and>
    wbuf (main_start env prog argv) = [] \<and>
    ppc (main_start env prog argv) = Idle \<and> \<not> spinning (main_start env prog argv) \<and>
    display (main_start env prog argv) = [] \<and> stdout (main_start env prog argv) = [] \<and>
    exec env sched (main_start env prog argv) = main_start env prog argv"
proof -
  from assms obtain msg where eq: "main_start env prog argv = die msg blank"
    and msg: "msg = Usage prog \<or> msg = BadBatchSize \<or> (\<exists>err. msg = ErrAccess err) \<or>
      msg = NotDirectory (hd argv)"
    by (rule main_rejected)
  have "exec env sched (die msg blank) = die msg blank"
    by (rule exited_exec) (simp_all add: die_def)
  with msg show ?thesis unfolding eq by (simp add: die_def blank_def)
qed

theorem C8_witness:
  "os_Stat env_a ''/tmp/nowhere'' \<noteq> Inr True \<and>
   exit_code (main_start env_a ''scan'' [''/tmp/nowhere'']) = Some 1 \<and>
   stderr (main_start env_a ''scan'' [''/tmp/nowhere'']) = [ErrAccess ''ENOENT''] \<and>
   \<not> created (main_start env_a ''scan'' [''/tmp/nowhere''])"
proof -
  have h: "os_Stat env_a ''/tmp/nowhere'' \<noteq> Inr True"
    by (simp add: os_Stat_def env_a_def)
  then have "[''/tmp/nowhere''] = [] \<or> parse_batch_size (tl [''/tmp/nowhere'']) = None \<or>
      os_Stat env_a (hd [''/tmp/nowhere'']) \<noteq> Inr True"
    by simp
  note t = C8_validation_before_create [OF this, where prog = "''scan''" and sched = "[]"]
  have "stderr (main_start env_a ''scan'' [''/tmp/nowhere'']) = [ErrAccess ''ENOENT'']"
    by (simp add: main_start_def parse_batch_size_def os_Stat_def env_a_def die_def blank_def)
  with t h show ?thesis by simp
qed

text \<open>
  Claim C9, as stated, fails, with batch size 2, at three places. After the scanner has
  sent two paths and the main goroutine has taken both through lines 109-113, the batch
  not yet flushed holds two records, which is not strictly less than the batch size.
  After the main goroutine has received the first path (line 109) and before it has
  appended its record (line 111), one path has been received, \<^verbatim>\<open>fileCount\<close> is 0 and the
  batch is empty. After the flush of the first batch and the update of the counter (line
  119), and before the reset of the batch (line 120), two paths have been received and
  \<^verbatim>\<open>fileCount\<close> is 2, while the batch still holds two records.
\<close>

theorem C9_counterexample:
  "pc (exec env_a sched_full (main_start env_a ''scan'' [''/tmp/a'', ''2''])) = WriteBatch \<and>
   int (length (batch (exec env_a sched_full (main_start env_a ''scan'' [''/tmp/a'', ''2''])))) =
     batchSize (exec env_a sched_full (main_start env_a ''scan'' [''/tmp/a'', ''2''])) \<and>
   popped (exec env_a sched_full (main_start env_a ''scan'' [''/tmp/a'', ''2''])) = 2 \<and>
   fileCount (exec env_a sched_full (main_start env_a ''scan'' [''/tmp/a'', ''2''])) = 0 \<and>
   writes (exec env_a sched_full (main_start env_a ''scan'' [''/tmp/a'', ''2''])) = [] \<and>
   pc (exec env_a sched_received (main_start env_a ''scan'' [''/tmp/a'', ''2''])) = Len \<and>
   popped (exec env_a sched_received (main_start env_a ''scan'' [''/tmp/a'', ''2''])) = 1 \<and>
   fileCount (exec env_a sched_received (main_start env_a ''scan'' [''/tmp/a'', ''2''])) = 0 \<and>
   batch (exec env_a sched_received (main_start env_a ''scan'' [''/tmp/a'', ''2''])) = [] \<and>
   pc (exec env_a sched_counted (main_start env_a ''scan'' [''/tmp/a'', ''2''])) = Reset \<and>
   popped (exec env_a sched_counted (main_start env_a ''scan'' [''/tmp/a'', ''2''])) = 2 \<and>
   fileCount (exec env_a sched_counted (main_start env_a ''scan'' [''/tmp/a'', ''2''])) = 2 \<and>
   length (batch (exec env_a sched_counted (main_start env_a ''scan'' [''/tmp/a'', ''2'']))) = 2"
  by code_simp

text \<open>
  Claim C9, amended. In a run that got past validation, with a stop before each
  statement of lines 108-131 (a failed write, its message and its exit end the run at
  once), and with \<^verbatim>\<open>len(batch)\<close> for the number of records the batch holds:
  the number of paths received minus \<^verbatim>\<open>fileCount\<close> is \<^verbatim>\<open>len(batch)\<close> before lines 108,
  109, 113, 114, 119, 125, 126 and 130; it is \<^verbatim>\<open>len(batch) + 1\<close> before lines 110 and 111,
  where the path just received is not yet in the batch; and it is 0 before line 120,
  where the batch still holds the \<^verbatim>\<open>batchSize\<close> records just flushed and counted, and
  after lines 125-131. The batch holds fewer than \<^verbatim>\<open>batchSize\<close> records before lines 108,
  109, 110, 111, 125, 126 and 130 and after lines 125-131, at least one and at most
  \<^verbatim>\<open>batchSize\<close> before line 113, and exactly \<^verbatim>\<open>batchSize\<close> before lines 114, 119 and 120.
  When the walk sends fewer than \<^verbatim>\<open>batchSize\<close> paths, lines 114, 119 and 120 are never
  reached and, as long as lines 125-131 have not been left, \<^verbatim>\<open>fileCount\<close> is 0 and so is
  every value the spinner has printed.
\<close>

theorem C9_batch_between_popped_and_count:
  assumes "exit_code (main_start env prog argv) = None"
  shows "(pc (exec env sched (main_start env prog argv)) = Alloc \<or>
     pc (exec env sched (main_start env prog argv)) = Recv \<or>
     pc (exec env sched (main_start env prog argv)) = Test \<or>
     pc (exec env sched (main_start env prog argv)) = WriteBatch \<or>
     pc (exec env sched (main_start env prog argv)) = Count \<or>
     pc (exec env sched (main_start env prog argv)) = FinalTest \<or>
     pc (exec env sched (main_start env prog argv)) = FinalWrite \<or>
     pc (exec env sched (main_start env prog argv)) = FinalCount \<longrightarrow>
       int (popped (exec env sched (main_start env prog argv))) -
       fileCount (exec env sched (main_start env prog argv)) =
         int (length (batch (exec env sched (main_start env prog argv))))) \<and>
    (pc (exec env sched (main_start env prog argv)) = Len \<or>
     pc (exec env sched (main_start env prog argv)) = Append \<longrightarrow>
       int (popped (exec env sched (main_start env prog argv))) -
       fileCount (exec env sched (main_start env prog argv)) =
         int (length (batch (exec env sched (main_start env prog argv)))) + 1) \<and>
    (pc (exec env sched (main_start env prog argv)) = Reset \<or>
     pc (exec env sched (main_start env prog argv)) = Stop \<or>
     pc (exec env sched (main_start env prog argv)) = Report \<longrightarrow>
       int (popped (exec env sched (main_start env prog argv))) -
       fileCount (exec env sched (main_start env prog argv)) = 0) \<and>
    (pc (exec env sched (main_start env prog argv)) = Alloc \<or>
     pc (exec env sched (main_start env prog argv)) = Recv \<or>
     pc (exec env sched (main_start env prog argv)) = Len \<or>
     pc (exec env sched (main_start env prog argv)) = Append \<or>
     pc (exec env sched (main_start env prog argv)) = FinalTest \<or>
     pc (exec env sched (main_start env prog argv)) = FinalWrite \<or>
     pc (exec env sched (main_start env prog argv)) = FinalCount \<or>
     pc (exec env sched (main_start env prog argv)) = Stop \<or>
     pc (exec env sched (main_start env prog argv)) = Report \<longrightarrow>
       int (length (batch (exec env sched (main_start env prog argv)))) <
         batchSize (main_start env prog argv)) \<and>
    (pc (exec env sched (main_start env prog argv)) = Test \<longrightarrow>
       0 < length (batch (exec env sched (main_start env prog argv))) \<and>
       int (length (batch (exec env sched (main_start env prog argv)))) \<le>
         batchSize (main_start env prog argv)) \<and>
    (pc (exec env sched (main_start env prog argv)) = WriteBatch \<or>
     pc (exec env sched (main_start env prog argv)) = Count \<or>
     pc (exec env sched (main_start env prog argv)) = Reset \<longrightarrow>
       int (length (batch (exec env sched (main_start env prog argv)))) =
         batchSize (main_start env prog argv)) \<and>
    (int (length (to_send (main_start env prog argv))) < batchSize (main_start env prog argv) \<longrightarrow>
       pc (exec env sched (main_start env prog argv)) \<noteq> WriteBatch \<and>
       pc (exec env sched (main_start env prog argv)) \<noteq> Count \<and>
       pc (exec env sched (main_start env prog argv)) \<noteq> Reset \<and>
       (pc (exec env sched (main_start env prog argv)) \<noteq> Stop \<and>
        pc (exec env sched (main_start env prog argv)) \<noteq> Report \<and>
        pc (exec env sched (main_start env prog argv)) \<noteq> Exited \<longrightarrow>
          fileCount (exec env sched (main_start env prog argv)) = 0 \<and>
          (\<forall>c \<in> set (display (exec env sched (main_start env prog argv))). c = 0)))"
proof -
  let ?init = "main_start env prog argv"
  let ?t = "exec env sched ?init"
  let ?B = "batchSize ?init"
  let ?S = "to_send ?init"
  let ?d = "int (popped ?t) - fileCount ?t"
  note r = main_reach [OF assms, of sched]
  note b = reach_batch [OF r]
  note wc = reach_well_chunked [OF r]
  have run: "running ?S (walk_ret ?init) ?B ?t" if "pc ?t \<noteq> Exited"
    using r that by (simp add: reach_def final_def exited_def)
  have po: "?d = lag_at (pc ?t) (batch ?t) + int (length (unflushed_at (pc ?t) (batch ?t))) +
      int (length (held_at (pc ?t) (curPath ?t) (pathLength ?t)))"
    if "pc ?t \<noteq> Exited"
    using running_popped(1) [OF run [OF that]] by simp
  have 1: "?d = int (length (batch ?t))"
    if "pc ?t = Alloc \<or> pc ?t = Recv \<or> pc ?t = Test \<or> pc ?t = WriteBatch \<or> pc ?t = Count \<or>
      pc ?t = FinalTest \<or> pc ?t = FinalWrite \<or> pc ?t = FinalCount"
  proof -
    from that have ne: "pc ?t \<noteq> Exited" by auto
    from that have "lag_at (pc ?t) (batch ?t) + int (length (unflushed_at (pc ?t) (batch ?t))) +
        int (length (held_at (pc ?t) (curPath ?t) (pathLength ?t))) = int (length (batch ?t))"
      by auto
    with po [OF ne] show ?thesis by simp
  qed
  have 2: "?d = int (length (batch ?t)) + 1" if "pc ?t = Len \<or> pc ?t = Append"
  proof -
    from that have ne: "pc ?t \<noteq> Exited" by auto
    from that have "lag_at (pc ?t) (batch ?t) + int (length (unflushed_at (pc ?t) (batch ?t))) +
        int (length (held_at (pc ?t) (curPath ?t) (pathLength ?t))) = int (length (batch ?t)) + 1"
      by auto
    with po [OF ne] show ?thesis by simp
  qed
  have 3: "?d = 0" if "pc ?t = Reset \<or> pc ?t = Stop \<or> pc ?t = Report"
  proof -
    from that have ne: "pc ?t \<noteq> Exited" by auto
    from that have "lag_at (pc ?t) (batch ?t) + int (length (unflushed_at (pc ?t) (batch ?t))) +
        int (length (held_at (pc ?t) (curPath ?t) (pathLength ?t))) = 0"
      by auto
    with po [OF ne] show ?thesis by simp
  qed
  have 4: "int (length (batch ?t)) < ?B"
    if "pc ?t = Alloc \<or> pc ?t = Recv \<or> pc ?t = Len \<or> pc ?t = Append \<or> pc ?t = FinalTest \<or>
      pc ?t = FinalWrite \<or> pc ?t = FinalCount \<or> pc ?t = Stop \<or> pc ?t = Report"
    using that b(1,2,4,6,9) wc(2) by auto
  have 5: "0 < length (batch ?t) \<and> int (length (batch ?t)) \<le> ?B" if "pc ?t = Test"
    using that b(7) by simp
  have 7: "pc ?t \<noteq> WriteBatch \<and> pc ?t \<noteq> Count \<and> pc ?t \<noteq> Reset \<and>
      (pc ?t \<noteq> Stop \<and> pc ?t \<noteq> Report \<and> pc ?t \<noteq> Exited \<longrightarrow>
         fileCount ?t = 0 \<and> (\<forall>c \<in> set (display ?t). c = 0))"
    if few: "int (length ?S) < ?B"
  proof (cases "pc ?t = Exited")
    case True
    then show ?thesis by simp
  next
    case False
    note f = few_files [OF run [OF False] few]
    have "\<forall>c \<in> set (display ?t). c = 0" if z: "fileCount ?t = 0"
    proof
      fix c assume "c \<in> set (display ?t)"
      with reach_disp [OF r] have "c \<le> fileCount ?t" "whole_batches (writes ?t) c"
        by (simp_all add: disp_def)
      then show "c = 0" using z by (auto simp: whole_batches_def)
    qed
    with f show ?thesis by blast
  qed
  from 1 2 3 4 5 b(3) 7 show ?thesis by blast
qed

theorem C9_witness:
  "exit_code (main_start env_a ''scan'' [''/tmp/a'', ''2'']) = None \<and>
   pc (exec env_a sched_received (main_start env_a ''scan'' [''/tmp/a'', ''2''])) = Len \<and>
   batch (exec env_a sched_received (main_start env_a ''scan'' [''/tmp/a'', ''2''])) = [] \<and>
   int (popped (exec env_a sched_received (main_start env_a ''scan'' [''/tmp/a'', ''2'']))) -
   fileCount (exec env_a sched_received (main_start env_a ''scan'' [''/tmp/a'', ''2''])) = 1 \<and>
   pc (exec env_a sched_counted (main_start env_a ''scan'' [''/tmp/a'', ''2''])) = Reset \<and>
   int (length (batch (exec env_a sched_counted
     (main_start env_a ''scan'' [''/tmp/a'', ''2''])))) = 2 \<and>
   int (popped (exec env_a sched_counted (main_start env_a ''scan'' [''/tmp/a'', ''2'']))) -
   fileCount (exec env_a sched_counted (main_start env_a ''scan'' [''/tmp/a'', ''2''])) = 0 \<and>
   exit_code (main_start env_a ''scan'' [''/tmp/a'', ''5'']) = None \<and>
   int (length (to_send (main_start env_a ''scan'' [''/tmp/a'', ''5'']))) <
     batchSize (main_start env_a ''scan'' [''/tmp/a'', ''5'']) \<and>
   pc (exec env_a sched_flushed (main_start env_a ''scan'' [''/tmp/a'', ''5''])) = Recv \<and>
   0 \<in> set (display (exec env_a sched_flushed (main_start env_a ''scan'' [''/tmp/a'', ''5'']))) \<and>
   fileCount (exec env_a sched_flushed (main_start env_a ''scan'' [''/tmp/a'', ''5''])) = 0 \<and>
   int (popped (exec env_a sched_flushed (main_start env_a ''scan'' [''/tmp/a'', ''5'']))) -
   fileCount (exec env_a sched_flushed (main_start env_a ''scan'' [''/tmp/a'', ''5''])) =
     int (length (batch (exec env_a sched_flushed
       (main_start env_a ''scan'' [''/tmp/a'', ''5'']))))"
proof -
  let ?two = "main_start env_a ''scan'' [''/tmp/a'', ''2'']"
  let ?u = "exec env_a sched_received ?two"
  let ?v = "exec env_a sched_counted ?two"
  let ?init = "main_start env_a ''scan'' [''/tmp/a'', ''5'']"
  let ?t = "exec env_a sched_flushed ?init"
  have g: "exit_code ?two = None" by code_simp
  have pu: "pc ?u = Len" by code_simp
  have bu: "batch ?u = []" by code_simp
  have pv: "pc ?v = Reset" by code_simp
  have bt: "batchSize ?two = 2" by code_simp
  have h: "exit_code ?init = None" by code_simp
  have few: "int (length (to_send ?init)) < batchSize ?init" by code_simp
  have p: "pc ?t = Recv" by code_simp
  have d: "0 \<in> set (display ?t)" by code_simp
  note u = C9_batch_between_popped_and_count [OF g, of sched_received]
  note v = C9_batch_between_popped_and_count [OF g, of sched_counted]
  note t = C9_batch_between_popped_and_count [OF h, of sched_flushed]
  from u pu bu have 1: "int (popped ?u) - fileCount ?u = 1" by simp
  from v pv bt have 2: "int (length (batch ?v)) = 2" "int (popped ?v) - fileCount ?v = 0"
    by simp_all
  from t p have 3: "int (popped ?t) - fileCount ?t = int (length (batch ?t))" by simp
  from t few p have 4: "fileCount ?t = 0" by simp
  from 1 2 3 4 g pu bu pv h few p d show ?thesis by blast
qed

text \<open>
  Claim C10. In a run that got past validation, with \<open>root\<close> the tree the walk finds at
  the directory: in every state the data rows of \<^verbatim>\<open>file_paths.csv\<close> are the first rows of
  what a depth-first walk that never looks behind a link finds, whatever the links of the
  tree point to, and when the run has ended (no write having failed, the batch having
  been allocated) they are all of these rows. So when the directory itself is a link (to
  a directory, or the check of line 41 would have stopped the run) the file has one data
  row, that of the link. An entry of the directory that the file system does not report
  as a directory, so a link whatever it points to, gives exactly one row, with its path
  and the length of its path, between the rows of the entries before it and those of the
  entries after it, and none for what it points to. And when the walk has met no error,
  such an entry anywhere in the tree has its row in the file, exactly once when no two
  entries of the tree have the same path.
\<close>

theorem C10_link_is_one_row:
  assumes "exit_code (main_start env prog (dirPath # rest)) = None"
    and "after_Create env dirPath = Inr root"
    and "\<forall>n. flush_error env n = None"
    and "makeslice_ok (batchSize (main_start env prog (dirPath # rest)))"
  shows "(\<exists>k. tl (outputFile (exec env sched (main_start env prog (dirPath # rest)))) =
       map record_of (take k (found_before (events (Join env) dirPath (retarget f root))))) \<and>
    (exit_code (exec env sched (main_start env prog (dirPath # rest))) \<noteq> None \<longrightarrow>
       tl (outputFile (exec env sched (main_start env prog (dirPath # rest)))) =
         map record_of (found_before (events (Join env) dirPath (retarget f root))) \<and>
       (root = Symlink target \<longrightarrow>
          outputFile (exec env sched (main_start env prog (dirPath # rest))) =
            [header, record_of dirPath]) \<and>
       (root = Dir (es1 @ (name, c) # es2) \<and> \<not> IsDir c \<longrightarrow>
          tl (outputFile (exec env sched (main_start env prog (dirPath # rest)))) =
            map record_of (found_before (events_entries (Join env) dirPath es1 @
              Found (Join env dirPath name) # events_entries (Join env) dirPath es2))) \<and>
       (walk_ret (main_start env prog (dirPath # rest)) = None \<and>
        node_at ns root = Some c' \<and> \<not> IsDir c' \<longrightarrow>
          record_of (foldl (Join env) dirPath ns) \<in>
            set (tl (outputFile (exec env sched (main_start env prog (dirPath # rest))))) \<and>
          (distinct (files_of (Join env) dirPath root) \<longrightarrow>
             count_list (tl (outputFile (exec env sched (main_start env prog (dirPath # rest)))))
               (record_of (foldl (Join env) dirPath ns)) = 1)))"
proof -
  let ?init = "main_start env prog (dirPath # rest)"
  let ?t = "exec env sched ?init"
  let ?E = "events (Join env) dirPath root"
  let ?S = "found_before ?E"
  have rt: "events (Join env) dirPath (retarget f root) = ?E" by (rule events_retarget)
  have sc: "scan env dirPath = (first_failure ?E, ?S)" by (rule scan_events [OF assms(2)])
  note ms = main_start_scan [OF assms(1), unfolded sc fst_conv snd_conv]
  note r = main_reach [OF assms(1), of sched, unfolded ms]
  have pre: "\<exists>k. tl (outputFile ?t) = map record_of (take k ?S)" by (rule reach_prefix [OF r])
  have fin: "tl (outputFile ?t) = map record_of ?S \<and>
      (root = Symlink target \<longrightarrow> outputFile ?t = [header, record_of dirPath]) \<and>
      (root = Dir (es1 @ (name, c) # es2) \<and> \<not> IsDir c \<longrightarrow>
         tl (outputFile ?t) = map record_of (found_before
           (events_entries (Join env) dirPath es1 @
            Found (Join env dirPath name) # events_entries (Join env) dirPath es2))) \<and>
      (walk_ret ?init = None \<and> node_at ns root = Some c' \<and> \<not> IsDir c' \<longrightarrow>
         record_of (foldl (Join env) dirPath ns) \<in> set (tl (outputFile ?t)) \<and>
         (distinct (files_of (Join env) dirPath root) \<longrightarrow>
            count_list (tl (outputFile ?t)) (record_of (foldl (Join env) dirPath ns)) = 1))"
    if e: "exit_code ?t \<noteq> None"
  proof -
    note f = exit_code_reach [OF r e]
    note o = ended_file(1) [OF f assms(3,4)]
    from o have rows: "tl (outputFile ?t) = map record_of ?S" by (simp split: if_splits)
    have 1: "outputFile ?t = [header, record_of dirPath]" if "root = Symlink target"
      using o that by simp
    have 2: "tl (outputFile ?t) = map record_of (found_before
        (events_entries (Join env) dirPath es1 @
         Found (Join env dirPath name) # events_entries (Join env) dirPath es2))"
      if "root = Dir (es1 @ (name, c) # es2) \<and> \<not> IsDir c"
      using rows that by (simp add: events_entries_append not_dir_events)
    have 3: "record_of (foldl (Join env) dirPath ns) \<in> set (tl (outputFile ?t)) \<and>
        (distinct (files_of (Join env) dirPath root) \<longrightarrow>
           count_list (tl (outputFile ?t)) (record_of (foldl (Join env) dirPath ns)) = 1)"
      if wn: "walk_ret ?init = None \<and> node_at ns root = Some c' \<and> \<not> IsDir c'"
    proof -
      from wn have w: "walk_ret ?init = None" and n: "node_at ns root = Some c'"
        and nd: "\<not> IsDir c'"
        by simp_all
      from w ms(2) have "first_failure ?E = None" by simp
      then have "readable root" by (rule failure_unreadable)
      from readable_events(1) [OF this, of "Join env" dirPath]
      have s: "?S = files_of (Join env) dirPath root" by simp
      note m = link_found [OF n nd, of "Join env" dirPath]
      from m have "record_of (foldl (Join env) dirPath ns) \<in> set (tl (outputFile ?t))"
        unfolding rows s by simp
      moreover have "count_list (tl (outputFile ?t))
          (record_of (foldl (Join env) dirPath ns)) = 1"
        if "distinct (files_of (Join env) dirPath root)"
        unfolding rows s by (rule count_record [OF that m])
      ultimately show ?thesis by blast
    qed
    from rows 1 2 3 show ?thesis by blast
  qed
  from pre fin show ?thesis unfolding rt by blast
qed

theorem C10_witness:
  "exit_code (main_start env_a ''scan'' [''/tmp/a'', ''2'']) = None \<and>
   after_Create env_a ''/tmp/a'' = Inr tree_a \<and>
   (\<forall>n. flush_error env_a n = None) \<and>
   makeslice_ok (batchSize (main_start env_a ''scan'' [''/tmp/a'', ''2''])) \<and>
   exit_code (exec env_a (round_robin 33) (main_start env_a ''scan'' [''/tmp/a'', ''2''])) \<noteq>
     None \<and>
   tree_a = Dir ([(''b'', Dir [(''y.txt'', File)])] @
     (''l'', Symlink (Dir [(''z'', File)])) # [(''x.txt'', File)]) \<and>
   walk_ret (main_start env_a ''scan'' [''/tmp/a'', ''2'']) = None \<and>
   node_at [''l''] tree_a = Some (Symlink (Dir [(''z'', File)])) \<and>
   \<not> IsDir (Symlink (Dir [(''z'', File)]) :: string node) \<and>
   distinct (files_of (Join env_a) ''/tmp/a'' tree_a) \<and>
   tl (outputFile (exec env_a (round_robin 33) (main_start env_a ''scan'' [''/tmp/a'', ''2'']))) =
     [[''/tmp/a/b/y.txt'', ''14''], [''/tmp/a/l'', ''8''], [''/tmp/a/x.txt'', ''12'']] \<and>
   count_list
     (tl (outputFile (exec env_a (round_robin 33)
        (main_start env_a ''scan'' [''/tmp/a'', ''2'']))))
     [''/tmp/a/l'', ''8''] = 1 \<and>
   exit_code (main_start env_link ''scan'' [''/tmp/ln'']) = None \<and>
   after_Create env_link ''/tmp/ln'' = Inr (Symlink tree_a) \<and>
   (\<forall>n. flush_error env_link n = None) \<and>
   makeslice_ok (batchSize (main_start env_link ''scan'' [''/tmp/ln''])) \<and>
   exit_code (exec env_link (round_robin 17) (main_start env_link ''scan'' [''/tmp/ln''])) \<noteq>
     None \<and>
   outputFile (exec env_link (round_robin 17) (main_start env_link ''scan'' [''/tmp/ln''])) =
     [[''file_path'', ''path_length''], [''/tmp/ln'', ''7'']]"
proof -
  let ?init = "main_start env_a ''scan'' [''/tmp/a'', ''2'']"
  let ?t = "exec env_a (round_robin 33) ?init"
  let ?linit = "main_start env_link ''scan'' [''/tmp/ln'']"
  let ?u = "exec env_link (round_robin 17) ?linit"
  have h1: "exit_code ?init = None" by code_simp
  have h2: "after_Create env_a ''/tmp/a'' = Inr tree_a"
    by (simp add: after_Create_def env_a_def)
  have h3: "\<forall>n. flush_error env_a n = None" by (simp add: env_a_def)
  have h4: "makeslice_ok (batchSize ?init)" by code_simp
  have h5: "exit_code ?t \<noteq> None" by code_simp
  have h6: "tree_a = Dir ([(''b'', Dir [(''y.txt'', File)])] @
      (''l'', Symlink (Dir [(''z'', File)])) # [(''x.txt'', File)])"
    by (simp add: tree_a_def)
  have h7: "walk_ret ?init = None" by code_simp
  have h8: "node_at [''l''] tree_a = Some (Symlink (Dir [(''z'', File)]))" by code_simp
  have h9: "distinct (files_of (Join env_a) ''/tmp/a'' tree_a)" by code_simp
  have ev: "map record_of (found_before
      (events_entries (Join env_a) ''/tmp/a'' [(''b'', Dir [(''y.txt'', File)])] @
       Found (Join env_a ''/tmp/a'' ''l'') #
       events_entries (Join env_a) ''/tmp/a'' [(''x.txt'', File :: string node)])) =
     [[''/tmp/a/b/y.txt'', ''14''], [''/tmp/a/l'', ''8''], [''/tmp/a/x.txt'', ''12'']]"
    by code_simp
  have rc: "record_of (foldl (Join env_a) ''/tmp/a'' [''l'']) = [''/tmp/a/l'', ''8'']"
    by code_simp
  have k1: "exit_code ?linit = None" by code_simp
  have k2: "after_Create env_link ''/tmp/ln'' = Inr (Symlink tree_a)"
    by (simp add: after_Create_def env_link_def)
  have k3: "\<forall>n. flush_error env_link n = None" by (simp add: env_link_def)
  have k4: "makeslice_ok (batchSize ?linit)" by code_simp
  have k5: "exit_code ?u \<noteq> None" by code_simp
  have lr: "[header, record_of ''/tmp/ln''] =
      [[''file_path'', ''path_length''], [''/tmp/ln'', ''7'']]"
    by code_simp
  have nd: "\<not> IsDir (Symlink (Dir [(''z'', File)]) :: string node)" by simp
  note a = C10_link_is_one_row [OF h1 h2 h3 h4, of "round_robin 33" "\<lambda>t. File" _
      "[(''b'', Dir [(''y.txt'', File)])]" "''l''" "Symlink (Dir [(''z'', File)])"
      "[(''x.txt'', File)]" "[''l'']" "Symlink (Dir [(''z'', File)])"]
  note b = C10_link_is_one_row [OF k1 k2 k3 k4, of "round_robin 17" "\<lambda>t. File" tree_a]
  note x = mp [OF conjunct2 [OF a] h5]
  note a1 = mp [OF conjunct1 [OF conjunct2 [OF conjunct2 [OF x]]] conjI [OF h6 nd],
      unfolded ev]
  note dd = mp [OF conjunct2 [OF conjunct2 [OF conjunct2 [OF x]]]
      conjI [OF h7 conjI [OF h8 nd]]]
  note a2 = mp [OF conjunct2 [OF dd] h9, unfolded rc]
  note y = mp [OF conjunct2 [OF b] k5]
  note b1 = mp [OF conjunct1 [OF conjunct2 [OF y]] refl, unfolded lr]
  show ?thesis
    by (intro conjI h1 h2 h3 h4 h5 h6 h7 h8 nd h9 a1 a2 k1 k2 k3 k4 k5 b1)
qed

end
